theory Spec2Isabelle
  imports Main "HOL-Library.Word"
begin

section \<open>Data model of \<^verbatim>\<open>sources/ProblemRegistry.move\<close>\<close>

text \<open>
  The Move module stores one \<^verbatim>\<open>Registry\<close> resource per account address. A registry
  holds a counter and a table of problems; a problem holds a vector of solutions.
  Field names carry a one-letter prefix of their struct (\<open>s_\<close>, \<open>p_\<close>), since
  \<^verbatim>\<open>id\<close> and \<^verbatim>\<open>cid\<close> occur in two structs and \<^verbatim>\<open>id\<close> is a constant of HOL.
  A \<^verbatim>\<open>u64\<close> is a 64-bit word; Move's arithmetic on it is checked, so an addition
  that would overflow aborts the transaction.
\<close>

type_synonym u64 = "64 word"
type_synonym address = nat
type_synonym bytes = "8 word list"

record Solution =
  s_id :: u64
  s_solver :: address
  s_cid :: bytes
  s_votes :: u64

record Problem =
  p_id :: u64
  p_owner :: address
  p_cid :: bytes
  p_lat :: bytes
  p_lng :: bytes
  p_bounty_octas :: u64
  p_open :: bool
  p_solutions :: "Solution list"
  p_chosen :: "u64 option"

record Registry =
  next_problem_id :: u64
  problems :: "u64 \<Rightarrow> Problem option"

text \<open>
  The global storage the module can see: the \<^verbatim>\<open>Registry\<close> published under each
  address (\<open>None\<close> where \<^verbatim>\<open>exists<Registry>(addr)\<close> is false) and the AptosCoin
  balance of each address (\<open>None\<close> where the account has no coin store).
\<close>

record state =
  registries :: "address \<Rightarrow> Registry option"
  coin_store :: "address \<Rightarrow> u64 option"

text \<open>
  Every way a transaction of the module can abort: \<open>Abort n\<close> is an \<^verbatim>\<open>assert!\<close> or
  \<^verbatim>\<open>abort\<close> of the module with code \<open>n\<close> (1 to 7); the others are raised by the
  virtual machine or by the framework functions the module calls.
\<close>

datatype error =
    Abort nat
  | MissingResource
  | TableKeyMissing
  | TableKeyExists
  | ArithmeticError
  | CoinStoreNotPublished
  | InsufficientBalance

section \<open>Framework operations used by the module\<close>

text \<open>Checked \<^verbatim>\<open>u64\<close> addition: Move aborts where the sum does not fit 64 bits.\<close>

definition add_u64 :: "u64 \<Rightarrow> u64 \<Rightarrow> error + u64" where
  "add_u64 a b = (if unat a + unat b < 2 ^ 64 then Inr (a + b) else Inl ArithmeticError)"

text \<open>
  \<^verbatim>\<open>vector::length\<close>, a \<^verbatim>\<open>u64\<close>. A Move vector has at most \<open>2^64 - 1\<close> elements, and
  so has every list of a reachable state; on those the conversion is exact.
\<close>

definition vector_length :: "'a list \<Rightarrow> u64" where
  "vector_length v = of_nat (length v)"

text \<open>\<^verbatim>\<open>table::add\<close> aborts on a key that is present, \<^verbatim>\<open>table::borrow_mut\<close> on one
  that is absent.\<close>

definition table_add :: "(u64 \<Rightarrow> 'v option) \<Rightarrow> u64 \<Rightarrow> 'v \<Rightarrow> error + (u64 \<Rightarrow> 'v option)" where
  "table_add t k v = (case t k of Some _ \<Rightarrow> Inl TableKeyExists | None \<Rightarrow> Inr (t(k \<mapsto> v)))"

definition table_borrow :: "(u64 \<Rightarrow> 'v option) \<Rightarrow> u64 \<Rightarrow> error + 'v" where
  "table_borrow t k = (case t k of None \<Rightarrow> Inl TableKeyMissing | Some v \<Rightarrow> Inr v)"

text \<open>\<^verbatim>\<open>borrow_global_mut<Registry>(addr)\<close> aborts where no registry is published.\<close>

definition borrow_global :: "state \<Rightarrow> address \<Rightarrow> error + Registry" where
  "borrow_global s addr = (case registries s addr of None \<Rightarrow> Inl MissingResource | Some reg \<Rightarrow> Inr reg)"

text \<open>
  Modelled from the spec: \<^verbatim>\<open>coin::transfer<AptosCoin>\<close> belongs to the Aptos framework
  and is not among the sources. It withdraws \<open>amount\<close> from the sender's balance and
  deposits it to the recipient; it fails as a whole where the sender's balance is
  insufficient, where either party has no coin store, or where the recipient's balance
  would not fit a \<^verbatim>\<open>u64\<close>.
\<close>

definition coin_transfer ::
  "(address \<Rightarrow> u64 option) \<Rightarrow> address \<Rightarrow> address \<Rightarrow> u64 \<Rightarrow> error + (address \<Rightarrow> u64 option)" where
  "coin_transfer bal from to amount =
     (case bal from of
        None \<Rightarrow> Inl CoinStoreNotPublished
      | Some bf \<Rightarrow>
          if bf < amount then Inl InsufficientBalance
          else (case (bal(from \<mapsto> bf - amount)) to of
                  None \<Rightarrow> Inl CoinStoreNotPublished
                | Some bt \<Rightarrow>
                    (case add_u64 bt amount of
                       Inl e \<Rightarrow> Inl e
                     | Inr nb \<Rightarrow> Inr ((bal(from \<mapsto> bf - amount))(to \<mapsto> nb)))))"

section \<open>The entry functions\<close>

text \<open>
  Each entry function takes the state and the address of its signer and returns the new
  state, or the error it aborts with. A Move transaction that aborts is rolled back as a
  whole, which \<open>exec\<close> writes out: the state after an aborted call is the state before.
\<close>

definition exec :: "(state \<Rightarrow> error + state) \<Rightarrow> state \<Rightarrow> state" where
  "exec tx s = (case tx s of Inl _ \<Rightarrow> s | Inr s' \<Rightarrow> s')"

definition ensure_registry :: "state \<Rightarrow> address \<Rightarrow> state" where
  "ensure_registry s addr =
     (if registries s addr = None
      then s\<lparr>registries := (registries s)(addr \<mapsto> \<lparr>next_problem_id = 1, problems = Map.empty\<rparr>)\<rparr>
      else s)"

text \<open>Writing through the mutable reference \<^verbatim>\<open>p_ref\<close> into the registry at \<open>addr\<close>.\<close>

definition write_problem :: "state \<Rightarrow> address \<Rightarrow> Registry \<Rightarrow> u64 \<Rightarrow> Problem \<Rightarrow> state" where
  "write_problem s addr reg problem_id p =
     s\<lparr>registries := (registries s)(addr \<mapsto> reg\<lparr>problems := (problems reg)(problem_id \<mapsto> p)\<rparr>)\<rparr>"

definition create_problem ::
  "state \<Rightarrow> address \<Rightarrow> bytes \<Rightarrow> bytes \<Rightarrow> bytes \<Rightarrow> u64 \<Rightarrow> error + state" where
  "create_problem s addr cid lat lng bounty_octas =
     (case borrow_global (ensure_registry s addr) addr of
        Inl e \<Rightarrow> Inl e
      | Inr reg \<Rightarrow>
          (case add_u64 (next_problem_id reg) 1 of
             Inl e \<Rightarrow> Inl e
           | Inr next \<Rightarrow>
               (case table_add (problems reg) (next_problem_id reg)
                       \<lparr>p_id = next_problem_id reg, p_owner = addr, p_cid = cid, p_lat = lat,
                        p_lng = lng, p_bounty_octas = bounty_octas, p_open = True,
                        p_solutions = [], p_chosen = None\<rparr> of
                  Inl e \<Rightarrow> Inl e
                | Inr t \<Rightarrow>
                    Inr ((ensure_registry s addr)
                          \<lparr>registries := (registries (ensure_registry s addr))
                             (addr \<mapsto> \<lparr>next_problem_id = next, problems = t\<rparr>)\<rparr>))))"

definition add_solution :: "state \<Rightarrow> address \<Rightarrow> u64 \<Rightarrow> address \<Rightarrow> bytes \<Rightarrow> error + state" where
  "add_solution s addr problem_id solver_addr cid =
     (case borrow_global s addr of
        Inl e \<Rightarrow> Inl e
      | Inr reg \<Rightarrow>
          (case table_borrow (problems reg) problem_id of
             Inl e \<Rightarrow> Inl e
           | Inr p \<Rightarrow>
               if \<not> p_open p then Inl (Abort 1)
               else if solver_addr \<noteq> addr then Inl (Abort 2)
               else (case add_u64 (vector_length (p_solutions p)) 1 of
                       Inl e \<Rightarrow> Inl e
                     | Inr new_id \<Rightarrow>
                         Inr (write_problem s addr reg problem_id
                               (p\<lparr>p_solutions := p_solutions p @
                                    [\<lparr>s_id = new_id, s_solver = solver_addr, s_cid = cid,
                                      s_votes = 0\<rparr>]\<rparr>)))))"

text \<open>
  The loop of \<^verbatim>\<open>vote_solution\<close>, from index \<open>i\<close>: the first solution whose id is
  \<open>solution_id\<close> gets one more vote and the function returns; running off the end
  reaches \<^verbatim>\<open>abort 4\<close>. The index is a natural number: it stays below the length, so
  its own increment cannot overflow.
\<close>

function vote_scan :: "Solution list \<Rightarrow> u64 \<Rightarrow> nat \<Rightarrow> error + Solution list" where
  "vote_scan sols solution_id i =
     (if i < length sols then
        (if s_id (sols ! i) = solution_id then
           (case add_u64 (s_votes (sols ! i)) 1 of
              Inl e \<Rightarrow> Inl e
            | Inr v \<Rightarrow> Inr (sols[i := (sols ! i)\<lparr>s_votes := v\<rparr>]))
         else vote_scan sols solution_id (i + 1))
      else Inl (Abort 4))"
  by pat_completeness auto
termination
  by (relation "measure (\<lambda>(sols, solution_id, i). length sols - i)") auto

declare vote_scan.simps [simp del]

definition vote_solution :: "state \<Rightarrow> address \<Rightarrow> u64 \<Rightarrow> u64 \<Rightarrow> error + state" where
  "vote_solution s addr problem_id solution_id =
     (case borrow_global s addr of
        Inl e \<Rightarrow> Inl e
      | Inr reg \<Rightarrow>
          (case table_borrow (problems reg) problem_id of
             Inl e \<Rightarrow> Inl e
           | Inr p \<Rightarrow>
               if \<not> p_open p then Inl (Abort 3)
               else (case vote_scan (p_solutions p) solution_id 0 of
                       Inl e \<Rightarrow> Inl e
                     | Inr sols \<Rightarrow>
                         Inr (write_problem s addr reg problem_id (p\<lparr>p_solutions := sols\<rparr>)))))"

text \<open>
  The loop of \<^verbatim>\<open>release_reward\<close>, from index \<open>i\<close>: \<open>solver_found\<close> starts as the
  caller's address and becomes the solver of the first solution whose id is
  \<open>solution_id\<close>, where the loop breaks.
\<close>

function release_scan :: "Solution list \<Rightarrow> u64 \<Rightarrow> nat \<Rightarrow> address \<Rightarrow> address" where
  "release_scan sols solution_id i solver_found =
     (if i < length sols then
        (if s_id (sols ! i) = solution_id then s_solver (sols ! i)
         else release_scan sols solution_id (i + 1) solver_found)
      else solver_found)"
  by pat_completeness auto
termination
  by (relation "measure (\<lambda>(sols, solution_id, i, solver_found). length sols - i)") auto

declare release_scan.simps [simp del]

definition release_reward :: "state \<Rightarrow> address \<Rightarrow> u64 \<Rightarrow> u64 \<Rightarrow> error + state" where
  "release_reward s addr problem_id solution_id =
     (case borrow_global s addr of
        Inl e \<Rightarrow> Inl e
      | Inr reg \<Rightarrow>
          (case table_borrow (problems reg) problem_id of
             Inl e \<Rightarrow> Inl e
           | Inr p \<Rightarrow>
               if p_owner p \<noteq> addr then Inl (Abort 5)
               else if \<not> p_open p then Inl (Abort 6)
               else if release_scan (p_solutions p) solution_id 0 addr = addr then Inl (Abort 7)
               else (case coin_transfer (coin_store s) addr
                            (release_scan (p_solutions p) solution_id 0 addr)
                            (p_bounty_octas p) of
                       Inl e \<Rightarrow> Inl e
                     | Inr bal \<Rightarrow>
                         Inr (write_problem (s\<lparr>coin_store := bal\<rparr>) addr reg problem_id
                               (p\<lparr>p_open := False, p_chosen := Some solution_id\<rparr>)))))"

section \<open>Transactions, reachable states and the properties of the specification\<close>

text \<open>One successful call of an entry function of the module.\<close>

inductive step :: "state \<Rightarrow> state \<Rightarrow> bool" where
  step_create: "create_problem s addr cid lat lng bounty_octas = Inr s' \<Longrightarrow> step s s'"
| step_add: "add_solution s addr problem_id solver_addr cid = Inr s' \<Longrightarrow> step s s'"
| step_vote: "vote_solution s addr problem_id solution_id = Inr s' \<Longrightarrow> step s s'"
| step_release: "release_reward s addr problem_id solution_id = Inr s' \<Longrightarrow> step s s'"

text \<open>
  The states the module can be in: no registry is published at first, registries change
  through the entry functions only (Move lets no other module touch the resource), and
  balances change through any transaction of the chain.
\<close>

inductive reachable :: "state \<Rightarrow> bool" where
  reachable_init: "reachable \<lparr>registries = Map.empty, coin_store = bal\<rparr>"
| reachable_step: "reachable s \<Longrightarrow> step s s' \<Longrightarrow> reachable s'"
| reachable_coin: "reachable s \<Longrightarrow> reachable (s\<lparr>coin_store := bal\<rparr>)"

definition problems_of :: "state \<Rightarrow> address \<Rightarrow> u64 \<Rightarrow> Problem option" where
  "problems_of s addr = (case registries s addr of None \<Rightarrow> Map.empty | Some reg \<Rightarrow> problems reg)"

text \<open>The id the next \<open>create_problem\<close> of \<open>addr\<close> allocates (the local \<^verbatim>\<open>id\<close>).\<close>

definition next_id :: "state \<Rightarrow> address \<Rightarrow> u64" where
  "next_id s addr = (case registries s addr of None \<Rightarrow> 1 | Some reg \<Rightarrow> next_problem_id reg)"

text \<open>The problem \<open>create_problem\<close> inserts.\<close>

definition new_problem :: "u64 \<Rightarrow> address \<Rightarrow> bytes \<Rightarrow> bytes \<Rightarrow> bytes \<Rightarrow> u64 \<Rightarrow> Problem" where
  "new_problem k addr cid lat lng bounty_octas =
     \<lparr>p_id = k, p_owner = addr, p_cid = cid, p_lat = lat, p_lng = lng,
      p_bounty_octas = bounty_octas, p_open = True, p_solutions = [], p_chosen = None\<rparr>"

text \<open>The registry invariant of the specification: the counter is above every key.\<close>

definition counter_inv :: "state \<Rightarrow> bool" where
  "counter_inv s = (\<forall>addr k. problems_of s addr k \<noteq> None \<longrightarrow> k < next_id s addr)"

text \<open>Ids start at 1 and have no gaps: the keys are exactly the ids below the counter.\<close>

definition dense_ids :: "state \<Rightarrow> bool" where
  "dense_ids s = (\<forall>addr. next_id s addr \<noteq> 0 \<and>
     (\<forall>k. (problems_of s addr k \<noteq> None) = (1 \<le> k \<and> k < next_id s addr)))"

text \<open>Repeated calls of \<open>create_problem\<close> by one caller, collecting the allocated ids.\<close>

fun create_problems ::
  "state \<Rightarrow> address \<Rightarrow> (bytes \<times> bytes \<times> bytes \<times> u64) list \<Rightarrow> error + (u64 list \<times> state)" where
  "create_problems s addr [] = Inr ([], s)"
| "create_problems s addr ((cid, lat, lng, bounty_octas) # rest) =
     (case create_problem s addr cid lat lng bounty_octas of
        Inl e \<Rightarrow> Inl e
      | Inr s' \<Rightarrow>
          (case create_problems s' addr rest of
             Inl e \<Rightarrow> Inl e
           | Inr (ids, s'') \<Rightarrow> Inr (next_id s addr # ids, s'')))"

definition chosen_inv :: "state \<Rightarrow> bool" where
  "chosen_inv s = (\<forall>addr k p. problems_of s addr k = Some p \<longrightarrow> (p_chosen p \<noteq> None) = (\<not> p_open p))"

definition closed_at :: "state \<Rightarrow> address \<Rightarrow> u64 \<Rightarrow> bool" where
  "closed_at s addr k = (case problems_of s addr k of None \<Rightarrow> False | Some p \<Rightarrow> \<not> p_open p)"

definition owner_inv :: "state \<Rightarrow> bool" where
  "owner_inv s = (\<forall>addr k p. problems_of s addr k = Some p \<longrightarrow> p_owner p = addr)"

text \<open>Every solution stored under \<open>addr\<close> credits \<open>addr\<close> itself.\<close>

definition solver_inv :: "state \<Rightarrow> bool" where
  "solver_inv s = (\<forall>addr k p. problems_of s addr k = Some p \<longrightarrow>
     (\<forall>x \<in> set (p_solutions p). s_solver x = addr))"

text \<open>Solution ids are the positions plus one.\<close>

definition sequential_ids :: "Solution list \<Rightarrow> bool" where
  "sequential_ids sols = (\<forall>i < length sols. unat (s_id (sols ! i)) = i + 1)"

definition solutions_inv :: "state \<Rightarrow> bool" where
  "solutions_inv s = (\<forall>addr k p. problems_of s addr k = Some p \<longrightarrow> sequential_ids (p_solutions p))"

text \<open>\<open>i\<close> is the position of the first solution with id \<open>solution_id\<close>.\<close>

definition first_match :: "Solution list \<Rightarrow> u64 \<Rightarrow> nat \<Rightarrow> bool" where
  "first_match sols solution_id i =
     (i < length sols \<and> s_id (sols ! i) = solution_id \<and> (\<forall>j < i. s_id (sols ! j) \<noteq> solution_id))"

section \<open>Example states\<close>

text \<open>
  The accounts of the examples are the addresses 10 (the owner A), 11 (a solver B) and
  12 (a voter C). The byte strings are the ASCII codes of the example of the
  specification: \<^verbatim>\<open>Qm111\<close>, \<^verbatim>\<open>37.77\<close>, \<^verbatim>\<open>-122.42\<close> and \<^verbatim>\<open>Qm222\<close>.
\<close>

definition Qm111 :: bytes where "Qm111 = [81, 109, 49, 49, 49]"
definition Qm222 :: bytes where "Qm222 = [81, 109, 50, 50, 50]"
definition lat_ex :: bytes where "lat_ex = [51, 55, 46, 55, 55]"
definition lng_ex :: bytes where "lng_ex = [45, 49, 50, 50, 46, 52, 50]"

text \<open>No registry yet; A holds 25000000 octas, B holds 5 and C has a coin store too.\<close>

definition fresh_state :: state where
  "fresh_state =
     \<lparr>registries = Map.empty, coin_store = Map.empty(10 \<mapsto> 25000000, 11 \<mapsto> 5, 12 \<mapsto> 0)\<rparr>"

text \<open>After \<open>create_problem\<close> by A with a bounty of 10000000 octas.\<close>

definition created_registry :: Registry where
  "created_registry =
     \<lparr>next_problem_id = 2,
      problems = Map.empty(1 \<mapsto> new_problem 1 10 Qm111 lat_ex lng_ex 10000000)\<rparr>"

definition created_state :: state where
  "created_state =
     \<lparr>registries = Map.empty(10 \<mapsto> created_registry),
      coin_store = Map.empty(10 \<mapsto> 25000000, 11 \<mapsto> 5, 12 \<mapsto> 0)\<rparr>"

text \<open>After A has added a solution to its own problem.\<close>

definition self_solved_problem :: Problem where
  "self_solved_problem =
     (new_problem 1 10 Qm111 lat_ex lng_ex 10000000)
       \<lparr>p_solutions := [\<lparr>s_id = 1, s_solver = 10, s_cid = Qm222, s_votes = 0\<rparr>]\<rparr>"

definition self_solved_registry :: Registry where
  "self_solved_registry =
     \<lparr>next_problem_id = 2, problems = Map.empty(1 \<mapsto> self_solved_problem)\<rparr>"

definition self_solved_state :: state where
  "self_solved_state =
     \<lparr>registries = Map.empty(10 \<mapsto> self_solved_registry),
      coin_store = Map.empty(10 \<mapsto> 25000000, 11 \<mapsto> 5, 12 \<mapsto> 0)\<rparr>"

text \<open>
  The state the example of the specification describes before the release: the problem
  of A holds a solution that credits B, with one vote. It is written down directly; the
  entry functions do not lead to it, since \<open>add_solution\<close> stores a solution under its
  caller and credits its caller.
\<close>

definition two_party_problem :: Problem where
  "two_party_problem =
     (new_problem 1 10 Qm111 lat_ex lng_ex 10000000)
       \<lparr>p_solutions := [\<lparr>s_id = 1, s_solver = 11, s_cid = Qm222, s_votes = 1\<rparr>]\<rparr>"

definition two_party_registry :: Registry where
  "two_party_registry = \<lparr>next_problem_id = 2, problems = Map.empty(1 \<mapsto> two_party_problem)\<rparr>"

definition two_party_state :: state where
  "two_party_state =
     \<lparr>registries = Map.empty(10 \<mapsto> two_party_registry),
      coin_store = Map.empty(10 \<mapsto> 25000000, 11 \<mapsto> 5, 12 \<mapsto> 0)\<rparr>"

text \<open>The same with a balance of A below the bounty.\<close>

definition underfunded_state :: state where
  "underfunded_state =
     \<lparr>registries = Map.empty(10 \<mapsto> two_party_registry),
      coin_store = Map.empty(10 \<mapsto> 9999999, 11 \<mapsto> 5, 12 \<mapsto> 0)\<rparr>"

text \<open>\<open>two_party_state\<close> after A has released the reward to solution 1.\<close>

definition released_problem :: Problem where
  "released_problem = two_party_problem\<lparr>p_open := False, p_chosen := Some 1\<rparr>"

definition released_registry :: Registry where
  "released_registry = \<lparr>next_problem_id = 2, problems = Map.empty(1 \<mapsto> released_problem)\<rparr>"

definition released_state :: state where
  "released_state =
     \<lparr>registries = Map.empty(10 \<mapsto> released_registry),
      coin_store = Map.empty(10 \<mapsto> 15000000, 11 \<mapsto> 10000005, 12 \<mapsto> 0)\<rparr>"

text \<open>\<open>self_solved_state\<close> after A has added a second solution.\<close>

definition twice_solved_problem :: Problem where
  "twice_solved_problem =
     (new_problem 1 10 Qm111 lat_ex lng_ex 10000000)
       \<lparr>p_solutions := [\<lparr>s_id = 1, s_solver = 10, s_cid = Qm222, s_votes = 0\<rparr>,
                        \<lparr>s_id = 2, s_solver = 10, s_cid = Qm111, s_votes = 0\<rparr>]\<rparr>"

definition twice_solved_registry :: Registry where
  "twice_solved_registry =
     \<lparr>next_problem_id = 2, problems = Map.empty(1 \<mapsto> twice_solved_problem)\<rparr>"

definition twice_solved_state :: state where
  "twice_solved_state =
     \<lparr>registries = Map.empty(10 \<mapsto> twice_solved_registry),
      coin_store = Map.empty(10 \<mapsto> 25000000, 11 \<mapsto> 5, 12 \<mapsto> 0)\<rparr>"

text \<open>\<open>created_state\<close> after A has created a second problem.\<close>

definition created_twice_state :: state where
  "created_twice_state =
     \<lparr>registries = Map.empty(10 \<mapsto>
        \<lparr>next_problem_id = 3,
         problems = Map.empty(1 \<mapsto> new_problem 1 10 Qm111 lat_ex lng_ex 10000000,
                              2 \<mapsto> new_problem 2 10 Qm222 lat_ex lng_ex 0)\<rparr>),
      coin_store = Map.empty(10 \<mapsto> 25000000, 11 \<mapsto> 5, 12 \<mapsto> 0)\<rparr>"

text \<open>\<open>released_state\<close> after B has created a problem of its own.\<close>

definition later_state :: state where
  "later_state =
     \<lparr>registries = Map.empty(10 \<mapsto> released_registry,
        11 \<mapsto>
        \<lparr>next_problem_id = 2,
         problems = Map.empty(1 \<mapsto> new_problem 1 11 Qm222 lat_ex lng_ex 0)\<rparr>),
      coin_store = Map.empty(10 \<mapsto> 15000000, 11 \<mapsto> 10000005, 12 \<mapsto> 0)\<rparr>"

text \<open>\<open>twice_solved_state\<close> after a vote for solution 2.\<close>

definition voted_state :: state where
  "voted_state =
     \<lparr>registries = Map.empty(10 \<mapsto>
        \<lparr>next_problem_id = 2,
         problems = Map.empty(1 \<mapsto>
           (new_problem 1 10 Qm111 lat_ex lng_ex 10000000)
             \<lparr>p_solutions := [\<lparr>s_id = 1, s_solver = 10, s_cid = Qm222, s_votes = 0\<rparr>,
                              \<lparr>s_id = 2, s_solver = 10, s_cid = Qm111, s_votes = 1\<rparr>]\<rparr>)\<rparr>),
      coin_store = Map.empty(10 \<mapsto> 25000000, 11 \<mapsto> 5, 12 \<mapsto> 0)\<rparr>"

subsection \<open>States at the limits of \<^verbatim>\<open>u64\<close>\<close>

text \<open>
  The state after \<open>n\<close> calls \<open>create_problem(A, [], [], [], 0)\<close> from the empty storage:
  the problems 1 to \<open>n\<close> and the counter \<open>n + 1\<close>.
\<close>

definition counter_state :: "nat \<Rightarrow> state" where
  "counter_state n =
     \<lparr>registries =
        (if n = 0 then Map.empty
         else Map.empty(10 \<mapsto>
           \<lparr>next_problem_id = of_nat (n + 1),
            problems = (\<lambda>k. if 1 \<le> unat k \<and> unat k \<le> n
                             then Some (new_problem k 10 [] [] [] 0) else None)\<rparr>)),
      coin_store = Map.empty\<rparr>"

definition full_counter_state :: state where
  "full_counter_state = counter_state (2 ^ 64 - 2)"

text \<open>
  The state after \<open>create_problem(A, [], [], [], 0)\<close> and \<open>n\<close> calls
  \<open>add_solution(A, 1, A, [])\<close>: problem 1 with the solutions 1 to \<open>n\<close>.
\<close>

definition solutions_state :: "nat \<Rightarrow> state" where
  "solutions_state n =
     \<lparr>registries = Map.empty(10 \<mapsto>
        \<lparr>next_problem_id = 2,
         problems = Map.empty(1 \<mapsto>
           (new_problem 1 10 [] [] [] 0)
             \<lparr>p_solutions :=
                map (\<lambda>i. \<lparr>s_id = of_nat (Suc i), s_solver = 10, s_cid = [], s_votes = 0\<rparr>)
                  [0..<n]\<rparr>)\<rparr>),
      coin_store = Map.empty\<rparr>"

definition full_solutions_state :: state where
  "full_solutions_state = solutions_state (2 ^ 64 - 1)"

text \<open>
  The state after \<open>create_problem(A, [], [], [], 0)\<close>, \<open>add_solution(A, 1, A, [])\<close> and
  \<open>n\<close> calls \<open>vote_solution(A, 1, 1)\<close>: solution 1 of problem 1 with \<open>n\<close> votes.
\<close>

definition votes_state :: "nat \<Rightarrow> state" where
  "votes_state n =
     \<lparr>registries = Map.empty(10 \<mapsto>
        \<lparr>next_problem_id = 2,
         problems = Map.empty(1 \<mapsto>
           (new_problem 1 10 [] [] [] 0)
             \<lparr>p_solutions := [\<lparr>s_id = 1, s_solver = 10, s_cid = [], s_votes = of_nat n\<rparr>]\<rparr>)\<rparr>),
      coin_store = Map.empty\<rparr>"

definition max_votes_state :: state where
  "max_votes_state = votes_state (2 ^ 64 - 1)"

text \<open>Its registry and its problem, written out.\<close>

definition max_votes_problem :: Problem where
  "max_votes_problem =
     (new_problem 1 10 [] [] [] 0)
       \<lparr>p_solutions := [\<lparr>s_id = 1, s_solver = 10, s_cid = [],
                         s_votes = 18446744073709551615\<rparr>]\<rparr>"

definition max_votes_registry :: Registry where
  "max_votes_registry = \<lparr>next_problem_id = 2, problems = Map.empty(1 \<mapsto> max_votes_problem)\<rparr>"


section \<open>Checked arithmetic and the storage helpers\<close>

lemma add_u64_one:
  "add_u64 a 1 = (if unat a < 2 ^ 64 - 1 then Inr (a + 1) else Inl ArithmeticError)"
  by (auto simp: add_u64_def)

lemma unat_plus_one:
  fixes a :: u64
  assumes "unat a < 2 ^ 64 - 1"
  shows "unat (a + 1) = unat a + 1"
proof -
  have "unat a + unat (1 :: u64) < 2 ^ LENGTH(64)" using assms by simp
  then have "unat (a + 1) = unat a + unat (1 :: u64)" by (simp only: unat_add_lem)
  then show ?thesis by simp
qed

lemma less_plus_one:
  fixes a :: u64
  assumes "unat a < 2 ^ 64 - 1"
  shows "a < a + 1" "k < a + 1 \<longleftrightarrow> k < a \<or> k = a"
  using assms unat_plus_one [OF assms]
  by (auto simp: word_less_nat_alt word_unat_eq_iff)

lemma problems_of_write [simp]:
  "problems_of (write_problem s addr reg k p) a =
     (if a = addr then (problems reg)(k \<mapsto> p) else problems_of s a)"
  by (simp add: problems_of_def write_problem_def)

lemma next_id_write [simp]:
  "next_id (write_problem s addr reg k p) a =
     (if a = addr then next_problem_id reg else next_id s a)"
  by (simp add: next_id_def write_problem_def)

lemma coin_store_write [simp]:
  "coin_store (write_problem s addr reg k p) = coin_store s"
  by (simp add: write_problem_def)

lemma problems_of_coin [simp]: "problems_of (s\<lparr>coin_store := bal\<rparr>) = problems_of s"
  by (simp add: problems_of_def fun_eq_iff)

lemma next_id_coin [simp]: "next_id (s\<lparr>coin_store := bal\<rparr>) = next_id s"
  by (simp add: next_id_def fun_eq_iff)

lemma create_problem_eq:
  "create_problem s addr cid lat lng bounty_octas =
     (if \<not> unat (next_id s addr) < 2 ^ 64 - 1 then Inl ArithmeticError
      else if problems_of s addr (next_id s addr) \<noteq> None then Inl TableKeyExists
      else Inr (s\<lparr>registries := (registries s)(addr \<mapsto>
             \<lparr>next_problem_id = next_id s addr + 1,
              problems = (problems_of s addr)(next_id s addr \<mapsto>
                 new_problem (next_id s addr) addr cid lat lng bounty_octas)\<rparr>)\<rparr>))"
  by (cases "registries s addr")
     (auto simp: create_problem_def ensure_registry_def borrow_global_def add_u64_one
        table_add_def problems_of_def next_id_def new_problem_def)

lemma add_solution_Inr:
  assumes "add_solution s addr k solver_addr cid = Inr s'"
  obtains reg p where "registries s addr = Some reg" "problems reg k = Some p" "p_open p"
    "solver_addr = addr" "unat (vector_length (p_solutions p)) < 2 ^ 64 - 1"
    "s' = write_problem s addr reg k
            (p\<lparr>p_solutions := p_solutions p @
               [\<lparr>s_id = vector_length (p_solutions p) + 1, s_solver = addr, s_cid = cid, s_votes = 0\<rparr>]\<rparr>)"
  using assms
  by (auto simp: add_solution_def borrow_global_def table_borrow_def add_u64_one
      split: option.splits if_splits)

lemma vote_solution_Inr:
  assumes "vote_solution s addr k solution_id = Inr s'"
  obtains reg p sols where "registries s addr = Some reg" "problems reg k = Some p" "p_open p"
    "vote_scan (p_solutions p) solution_id 0 = Inr sols"
    "s' = write_problem s addr reg k (p\<lparr>p_solutions := sols\<rparr>)"
  using assms
  by (auto simp: vote_solution_def borrow_global_def table_borrow_def
      split: option.splits if_splits sum.splits)

lemma coin_transfer_Inr:
  assumes "coin_transfer bal from to amount = Inr bal'" "to \<noteq> from"
  obtains bf bt where "bal from = Some bf" "bal to = Some bt" "amount \<le> bf"
    "unat bt + unat amount < 2 ^ 64"
    "bal' = bal(from \<mapsto> bf - amount, to \<mapsto> bt + amount)"
  using assms
  by (auto simp: coin_transfer_def add_u64_def split: option.splits if_splits)

lemma release_reward_Inr:
  assumes "release_reward s addr k solution_id = Inr s'"
  obtains reg p bal where "registries s addr = Some reg" "problems reg k = Some p" "p_open p"
    "p_owner p = addr" "release_scan (p_solutions p) solution_id 0 addr \<noteq> addr"
    "coin_transfer (coin_store s) addr (release_scan (p_solutions p) solution_id 0 addr)
       (p_bounty_octas p) = Inr bal"
    "s' = write_problem (s\<lparr>coin_store := bal\<rparr>) addr reg k
            (p\<lparr>p_open := False, p_chosen := Some solution_id\<rparr>)"
  using assms
  by (auto simp: release_reward_def borrow_global_def table_borrow_def
      split: option.splits if_splits sum.splits)

lemma unat_of_nat_u64: "n < 2 ^ 64 \<Longrightarrow> unat (of_nat n :: u64) = n"
  by (simp add: unat_of_nat)


text \<open>The equations that evaluate the entry functions on a concrete state.\<close>

lemmas eval_defs = release_reward_def borrow_global_def table_borrow_def coin_transfer_def
  add_u64_def write_problem_def new_problem_def release_scan.simps vote_scan.simps
  vote_solution_def add_solution_def vector_length_def exec_def create_problem_def
  ensure_registry_def table_add_def

lemmas example_defs = fresh_state_def created_state_def created_registry_def
  twice_solved_registry_def released_registry_def released_problem_def
  self_solved_registry_def self_solved_problem_def self_solved_state_def
  twice_solved_state_def twice_solved_problem_def created_twice_state_def two_party_state_def two_party_registry_def
  two_party_problem_def underfunded_state_def released_state_def later_state_def voted_state_def

section \<open>The two loops\<close>

lemma vote_scan_none:
  "(\<And>m. i \<le> m \<Longrightarrow> m < length sols \<Longrightarrow> s_id (sols ! m) \<noteq> solution_id) \<Longrightarrow>
   vote_scan sols solution_id i = Inl (Abort 4)"
proof (induction sols solution_id i rule: vote_scan.induct)
  case (1 sols solution_id i)
  show ?case
  proof (cases "i < length sols")
    case True
    then have ne: "s_id (sols ! i) \<noteq> solution_id" using "1.prems" by simp
    have "vote_scan sols solution_id (i + 1) = Inl (Abort 4)"
      using "1.IH" [OF True ne] "1.prems" by simp
    then show ?thesis using True ne by (subst vote_scan.simps) simp
  next
    case False
    then show ?thesis by (subst vote_scan.simps) simp
  qed
qed

lemma vote_scan_first:
  "i \<le> j \<Longrightarrow> j < length sols \<Longrightarrow> s_id (sols ! j) = solution_id \<Longrightarrow>
   (\<And>m. i \<le> m \<Longrightarrow> m < j \<Longrightarrow> s_id (sols ! m) \<noteq> solution_id) \<Longrightarrow>
   vote_scan sols solution_id i =
     (if unat (s_votes (sols ! j)) < 2 ^ 64 - 1
      then Inr (sols[j := (sols ! j)\<lparr>s_votes := s_votes (sols ! j) + 1\<rparr>])
      else Inl ArithmeticError)"
proof (induction sols solution_id i rule: vote_scan.induct)
  case (1 sols solution_id i)
  have lt: "i < length sols" using "1.prems" by simp
  show ?case
  proof (cases "i = j")
    case True
    then show ?thesis using "1.prems" lt
      by (subst vote_scan.simps) (simp add: add_u64_one)
  next
    case False
    then have ij: "i < j" using "1.prems" by simp
    then have ne: "s_id (sols ! i) \<noteq> solution_id" using "1.prems" by simp
    have "vote_scan sols solution_id (i + 1) =
      (if unat (s_votes (sols ! j)) < 2 ^ 64 - 1
       then Inr (sols[j := (sols ! j)\<lparr>s_votes := s_votes (sols ! j) + 1\<rparr>])
       else Inl ArithmeticError)"
      using "1.IH" [OF lt ne] "1.prems" ij by simp
    then show ?thesis using lt ne by (subst vote_scan.simps) simp
  qed
qed

lemma release_scan_none:
  "(\<And>m. i \<le> m \<Longrightarrow> m < length sols \<Longrightarrow> s_id (sols ! m) \<noteq> solution_id) \<Longrightarrow>
   release_scan sols solution_id i solver_found = solver_found"
proof (induction sols solution_id i solver_found rule: release_scan.induct)
  case (1 sols solution_id i solver_found)
  show ?case
  proof (cases "i < length sols")
    case True
    then have ne: "s_id (sols ! i) \<noteq> solution_id" using "1.prems" by simp
    have "release_scan sols solution_id (i + 1) solver_found = solver_found"
      using "1.IH" [OF True ne] "1.prems" by simp
    then show ?thesis using True ne by (subst release_scan.simps) simp
  next
    case False
    then show ?thesis by (subst release_scan.simps) simp
  qed
qed

lemma release_scan_first:
  "i \<le> j \<Longrightarrow> j < length sols \<Longrightarrow> s_id (sols ! j) = solution_id \<Longrightarrow>
   (\<And>m. i \<le> m \<Longrightarrow> m < j \<Longrightarrow> s_id (sols ! m) \<noteq> solution_id) \<Longrightarrow>
   release_scan sols solution_id i solver_found = s_solver (sols ! j)"
proof (induction sols solution_id i solver_found rule: release_scan.induct)
  case (1 sols solution_id i solver_found)
  have lt: "i < length sols" using "1.prems" by simp
  show ?case
  proof (cases "i = j")
    case True
    then show ?thesis using "1.prems" lt by (subst release_scan.simps) simp
  next
    case False
    then have ij: "i < j" using "1.prems" by simp
    then have ne: "s_id (sols ! i) \<noteq> solution_id" using "1.prems" by simp
    have "release_scan sols solution_id (i + 1) solver_found = s_solver (sols ! j)"
      using "1.IH" [OF lt ne] "1.prems" ij by simp
    then show ?thesis using lt ne by (subst release_scan.simps) simp
  qed
qed

lemma first_match_exists:
  assumes "\<exists>x \<in> set sols. s_id x = solution_id"
  shows "\<exists>j. first_match sols solution_id j"
proof -
  from assms obtain n where n: "n < length sols \<and> s_id (sols ! n) = solution_id"
    by (auto simp: in_set_conv_nth)
  define j where "j = (LEAST n. n < length sols \<and> s_id (sols ! n) = solution_id)"
  have "j < length sols \<and> s_id (sols ! j) = solution_id"
    unfolding j_def by (rule LeastI [of _ n]) (rule n)
  moreover have "\<forall>m < j. s_id (sols ! m) \<noteq> solution_id"
  proof (intro allI impI notI)
    fix m assume m: "m < j" and e: "s_id (sols ! m) = solution_id"
    have "m < length sols" using m \<open>j < length sols \<and> _\<close> by simp
    then have "j \<le> m" unfolding j_def using e by (intro Least_le) simp
    then show False using m by simp
  qed
  ultimately show ?thesis by (auto simp: first_match_def)
qed

lemma vote_scan_Inr:
  assumes "vote_scan sols solution_id 0 = Inr sols'"
  obtains j where "first_match sols solution_id j" "unat (s_votes (sols ! j)) < 2 ^ 64 - 1"
    "sols' = sols[j := (sols ! j)\<lparr>s_votes := s_votes (sols ! j) + 1\<rparr>]"
proof -
  have ex: "\<exists>x \<in> set sols. s_id x = solution_id"
  proof (rule ccontr)
    assume "\<not> ?thesis"
    then have "\<And>m. m < length sols \<Longrightarrow> s_id (sols ! m) \<noteq> solution_id" by simp
    then have "vote_scan sols solution_id 0 = Inl (Abort 4)" by (intro vote_scan_none)
    with assms show False by simp
  qed
  then obtain j where fm: "first_match sols solution_id j" using first_match_exists by blast
  then have "vote_scan sols solution_id 0 =
     (if unat (s_votes (sols ! j)) < 2 ^ 64 - 1
      then Inr (sols[j := (sols ! j)\<lparr>s_votes := s_votes (sols ! j) + 1\<rparr>])
      else Inl ArithmeticError)"
    using vote_scan_first [of 0 j sols solution_id] by (simp add: first_match_def)
  with assms fm that show ?thesis by (auto split: if_splits)
qed

lemma release_scan_found:
  assumes "release_scan sols solution_id 0 addr \<noteq> addr"
  obtains j where "first_match sols solution_id j"
    "release_scan sols solution_id 0 addr = s_solver (sols ! j)"
proof -
  have ex: "\<exists>x \<in> set sols. s_id x = solution_id"
  proof (rule ccontr)
    assume "\<not> ?thesis"
    then have "\<And>m. m < length sols \<Longrightarrow> s_id (sols ! m) \<noteq> solution_id" by simp
    then have "release_scan sols solution_id 0 addr = addr" by (intro release_scan_none)
    with assms show False by simp
  qed
  then obtain j where fm: "first_match sols solution_id j" using first_match_exists by blast
  then have "release_scan sols solution_id 0 addr = s_solver (sols ! j)"
    using release_scan_first [of 0 j sols solution_id addr] by (simp add: first_match_def)
  with fm that show ?thesis by blast
qed

section \<open>The effect of one transaction\<close>

lemma problems_of_registries_upd [simp]:
  "problems_of (s\<lparr>registries := (registries s)(addr \<mapsto> reg)\<rparr>) a =
     (if a = addr then problems reg else problems_of s a)"
  by (simp add: problems_of_def)

lemma next_id_registries_upd [simp]:
  "next_id (s\<lparr>registries := (registries s)(addr \<mapsto> reg)\<rparr>) a =
     (if a = addr then next_problem_id reg else next_id s a)"
  by (simp add: next_id_def)

lemma problems_of_Some: "registries s addr = Some reg \<Longrightarrow> problems_of s addr = problems reg"
  by (simp add: problems_of_def)

lemma next_id_Some: "registries s addr = Some reg \<Longrightarrow> next_id s addr = next_problem_id reg"
  by (simp add: next_id_def)

text \<open>What one transaction does to the problem stored under a key.\<close>

lemma step_problem [consumes 2, case_names unchanged created added voted released]:
  assumes "step s s'" and "problems_of s' a k = Some p'"
  obtains "problems_of s a k = Some p'"
  | cid lat lng b where "problems_of s a k = None" "k = next_id s a"
      "p' = new_problem k a cid lat lng b"
  | p cid where "problems_of s a k = Some p" "p_open p"
      "unat (vector_length (p_solutions p)) < 2 ^ 64 - 1"
      "p' = p\<lparr>p_solutions := p_solutions p @
              [\<lparr>s_id = vector_length (p_solutions p) + 1, s_solver = a, s_cid = cid,
                s_votes = 0\<rparr>]\<rparr>"
  | p j sid where "problems_of s a k = Some p" "p_open p" "first_match (p_solutions p) sid j"
      "unat (s_votes (p_solutions p ! j)) < 2 ^ 64 - 1"
      "p' = p\<lparr>p_solutions := (p_solutions p)
              [j := (p_solutions p ! j)\<lparr>s_votes := s_votes (p_solutions p ! j) + 1\<rparr>]\<rparr>"
  | p sid where "problems_of s a k = Some p" "p_open p" "p_owner p = a"
      "p' = p\<lparr>p_open := False, p_chosen := Some sid\<rparr>"
  using assms(1)
proof cases
  case (step_create addr cid lat lng bounty_octas)
  then have "problems_of s' a k = (if a = addr \<and> k = next_id s addr
      then Some (new_problem (next_id s addr) addr cid lat lng bounty_octas)
      else problems_of s a k)"
    and "a = addr \<and> k = next_id s addr \<longrightarrow> problems_of s a k = None"
    by (auto simp: create_problem_eq split: if_splits)
  then show ?thesis using assms(2) that(1,2) by (auto split: if_splits)
next
  case (step_add addr problem_id solver_addr cid)
  then show ?thesis
  proof (rule add_solution_Inr)
    fix reg p
    assume "registries s addr = Some reg" "problems reg problem_id = Some p" "p_open p"
      "solver_addr = addr" "unat (vector_length (p_solutions p)) < 2 ^ 64 - 1"
      "s' = write_problem s addr reg problem_id
            (p\<lparr>p_solutions := p_solutions p @
               [\<lparr>s_id = vector_length (p_solutions p) + 1, s_solver = addr, s_cid = cid, s_votes = 0\<rparr>]\<rparr>)"
    then show ?thesis using assms(2) that(1,3)
      by (auto simp: problems_of_Some split: if_splits)
  qed
next
  case (step_vote addr problem_id solution_id)
  then show ?thesis
  proof (rule vote_solution_Inr)
    fix reg p sols
    assume a: "registries s addr = Some reg" "problems reg problem_id = Some p" "p_open p"
      "s' = write_problem s addr reg problem_id (p\<lparr>p_solutions := sols\<rparr>)"
      and v: "vote_scan (p_solutions p) solution_id 0 = Inr sols"
    from v obtain j where "first_match (p_solutions p) solution_id j"
      "unat (s_votes (p_solutions p ! j)) < 2 ^ 64 - 1"
      "sols = (p_solutions p)[j := (p_solutions p ! j)\<lparr>s_votes := s_votes (p_solutions p ! j) + 1\<rparr>]"
      by (rule vote_scan_Inr)
    with a show ?thesis using assms(2) that(1,4)
      by (auto simp: problems_of_Some split: if_splits)
  qed
next
  case (step_release addr problem_id solution_id)
  then show ?thesis
  proof (rule release_reward_Inr)
    fix reg p bal
    assume "registries s addr = Some reg" "problems reg problem_id = Some p" "p_open p"
      "p_owner p = addr"
      "s' = write_problem (s\<lparr>coin_store := bal\<rparr>) addr reg problem_id
            (p\<lparr>p_open := False, p_chosen := Some solution_id\<rparr>)"
    then show ?thesis using assms(2) that(1,5)
      by (auto simp: problems_of_Some split: if_splits)
  qed
qed

text \<open>A closed problem is never touched again, and no problem is ever removed.\<close>

lemma step_keeps:
  assumes "step s s'" and "problems_of s a k = Some p"
  shows "\<exists>p'. problems_of s' a k = Some p' \<and> (\<not> p_open p \<longrightarrow> p' = p)"
  using assms(1)
proof cases
  case (step_create addr cid lat lng bounty_octas)
  then show ?thesis using assms(2)
    by (auto simp: create_problem_eq split: if_splits)
next
  case (step_add addr problem_id solver_addr cid)
  then show ?thesis using assms(2)
    by (elim add_solution_Inr) (auto simp: problems_of_Some)
next
  case (step_vote addr problem_id solution_id)
  then show ?thesis using assms(2)
    by (elim vote_solution_Inr) (auto simp: problems_of_Some)
next
  case (step_release addr problem_id solution_id)
  then show ?thesis using assms(2)
    by (elim release_reward_Inr) (auto simp: problems_of_Some)
qed

text \<open>What one transaction does to the counter and the key set of a registry.\<close>

lemma step_registry:
  assumes "step s s'"
  shows "(next_id s' a = next_id s a \<and>
          (\<forall>k. (problems_of s' a k = None) = (problems_of s a k = None)))
    \<or> (unat (next_id s a) < 2 ^ 64 - 1 \<and> next_id s' a = next_id s a + 1 \<and>
        problems_of s a (next_id s a) = None \<and>
        (\<exists>cid lat lng b. problems_of s' a =
           (problems_of s a)(next_id s a \<mapsto> new_problem (next_id s a) a cid lat lng b)))"
  using assms
proof cases
  case (step_create addr cid lat lng bounty_octas)
  then show ?thesis
    by (auto simp: create_problem_eq split: if_splits) blast+
next
  case (step_add addr problem_id solver_addr cid)
  then show ?thesis
    by (elim add_solution_Inr) (auto simp: problems_of_Some next_id_Some)
next
  case (step_vote addr problem_id solution_id)
  then show ?thesis
    by (elim vote_solution_Inr) (auto simp: problems_of_Some next_id_Some)
next
  case (step_release addr problem_id solution_id)
  then show ?thesis
    by (elim release_reward_Inr) (auto simp: problems_of_Some next_id_Some)
qed

lemma create_problem_Inr:
  assumes "create_problem s a cid lat lng b = Inr s'"
  shows "unat (next_id s a) < 2 ^ 64 - 1"
    and "problems_of s a (next_id s a) = None"
    and "problems_of s' a = (problems_of s a)(next_id s a \<mapsto> new_problem (next_id s a) a cid lat lng b)"
    and "next_id s' a = next_id s a + 1"
    and "coin_store s' = coin_store s"
  using assms by (auto simp: create_problem_eq split: if_splits)


section \<open>Invariants of the reachable states\<close>

lemma word_one_le: "1 \<le> k \<longleftrightarrow> k \<noteq> 0" for k :: u64
  by (simp add: word_le_nat_alt flip: unat_gt_0) arith

lemma plus_one_nonzero: "unat a < 2 ^ 64 - 1 \<Longrightarrow> a + 1 \<noteq> 0" for a :: u64
  using unat_plus_one [of a] by (auto simp flip: unat_0_iff)

lemma counter_inv_step:
  assumes "counter_inv s" and "step s s'"
  shows "counter_inv s'"
  unfolding counter_inv_def
proof (intro allI impI)
  fix a k
  assume k: "problems_of s' a k \<noteq> None"
  from step_registry [OF assms(2), of a] show "k < next_id s' a"
  proof (elim disjE conjE exE)
    assume "next_id s' a = next_id s a"
      "\<forall>k. (problems_of s' a k = None) = (problems_of s a k = None)"
    then show ?thesis using k assms(1) by (simp add: counter_inv_def)
  next
    fix cid lat lng b
    assume n: "unat (next_id s a) < 2 ^ 64 - 1" "next_id s' a = next_id s a + 1"
      and p: "problems_of s' a =
        (problems_of s a)(next_id s a \<mapsto> new_problem (next_id s a) a cid lat lng b)"
    have "k = next_id s a \<or> k < next_id s a"
      using k p assms(1) by (auto simp: counter_inv_def split: if_splits)
    then show ?thesis using n less_plus_one(2) [of "next_id s a" k] by auto
  qed
qed

lemma dense_ids_step:
  assumes "dense_ids s" and "step s s'"
  shows "dense_ids s'"
  unfolding dense_ids_def
proof (intro allI)
  fix a
  have d0: "next_id s a \<noteq> 0" using assms(1) by (simp add: dense_ids_def)
  have d: "(problems_of s a k \<noteq> None) = (1 \<le> k \<and> k < next_id s a)" for k
    using assms(1) by (simp add: dense_ids_def)
  from step_registry [OF assms(2), of a]
  show "next_id s' a \<noteq> 0 \<and> (\<forall>k. (problems_of s' a k \<noteq> None) = (1 \<le> k \<and> k < next_id s' a))"
  proof (elim disjE conjE exE)
    assume "next_id s' a = next_id s a"
      "\<forall>k. (problems_of s' a k = None) = (problems_of s a k = None)"
    then show ?thesis using d0 d by simp
  next
    fix cid lat lng b
    assume n: "unat (next_id s a) < 2 ^ 64 - 1" and n': "next_id s' a = next_id s a + 1"
      and p: "problems_of s' a =
        (problems_of s a)(next_id s a \<mapsto> new_problem (next_id s a) a cid lat lng b)"
    have nz: "next_id s' a \<noteq> 0" using n n' plus_one_nonzero by simp
    have one: "1 \<le> next_id s a" using d0 by (simp add: word_one_le)
    have "(problems_of s' a k \<noteq> None) = (1 \<le> k \<and> k < next_id s' a)" for k
    proof -
      have "(problems_of s' a k \<noteq> None) = (k = next_id s a \<or> problems_of s a k \<noteq> None)"
        by (simp add: p)
      also have "\<dots> = (k = next_id s a \<or> (1 \<le> k \<and> k < next_id s a))"
        by (simp only: d)
      also have "\<dots> = (1 \<le> k \<and> (k < next_id s a \<or> k = next_id s a))"
        using one by blast
      also have "\<dots> = (1 \<le> k \<and> k < next_id s' a)"
        by (simp only: n' less_plus_one(2) [OF n])
      finally show ?thesis .
    qed
    with nz show ?thesis by blast
  qed
qed

lemma chosen_inv_step:
  assumes "chosen_inv s" and "step s s'"
  shows "chosen_inv s'"
  unfolding chosen_inv_def
proof (intro allI impI)
  fix a k p'
  assume p': "problems_of s' a k = Some p'"
  have old: "problems_of s a k = Some p \<Longrightarrow> (p_chosen p \<noteq> None) = (\<not> p_open p)" for p
    using assms(1) by (simp add: chosen_inv_def)
  from assms(2) p' show "(p_chosen p' \<noteq> None) = (\<not> p_open p')"
  proof (cases rule: step_problem)
    case unchanged
    then show ?thesis by (rule old)
  next
    case (created cid lat lng b)
    then show ?thesis by (simp add: new_problem_def)
  next
    case (added p cid)
    then show ?thesis using old [of p] by simp
  next
    case (voted p j sid)
    then show ?thesis using old [of p] by simp
  next
    case (released p sid)
    then show ?thesis by simp
  qed
qed

lemma owner_inv_step:
  assumes "owner_inv s" and "step s s'"
  shows "owner_inv s'"
  unfolding owner_inv_def
proof (intro allI impI)
  fix a k p'
  assume p': "problems_of s' a k = Some p'"
  have old: "problems_of s a k = Some p \<Longrightarrow> p_owner p = a" for p
    using assms(1) by (simp add: owner_inv_def)
  from assms(2) p' show "p_owner p' = a"
  proof (cases rule: step_problem)
    case unchanged
    then show ?thesis by (rule old)
  next
    case (created cid lat lng b)
    then show ?thesis by (simp add: new_problem_def)
  next
    case (added p cid)
    then show ?thesis using old [of p] by simp
  next
    case (voted p j sid)
    then show ?thesis using old [of p] by simp
  next
    case (released p sid)
    then show ?thesis by simp
  qed
qed

lemma solver_inv_step:
  assumes "solver_inv s" and "step s s'"
  shows "solver_inv s'"
  unfolding solver_inv_def
proof (intro allI impI)
  fix a k p'
  assume p': "problems_of s' a k = Some p'"
  have old: "problems_of s a k = Some p \<Longrightarrow> \<forall>x \<in> set (p_solutions p). s_solver x = a" for p
    using assms(1) by (simp add: solver_inv_def)
  from assms(2) p' show "\<forall>x \<in> set (p_solutions p'). s_solver x = a"
  proof (cases rule: step_problem)
    case unchanged
    then show ?thesis by (rule old)
  next
    case (created cid lat lng b)
    then show ?thesis by (simp add: new_problem_def)
  next
    case (added p cid)
    then show ?thesis using old [of p] by simp
  next
    case (voted p j sid)
    have j: "j < length (p_solutions p)" using voted(3) by (simp add: first_match_def)
    have "s_solver x = a" if "x \<in> set ((p_solutions p)
        [j := (p_solutions p ! j)\<lparr>s_votes := s_votes (p_solutions p ! j) + 1\<rparr>])" for x
    proof -
      from that have "x = (p_solutions p ! j)\<lparr>s_votes := s_votes (p_solutions p ! j) + 1\<rparr>
          \<or> x \<in> set (p_solutions p)"
        using set_update_subset_insert by fastforce
      then show ?thesis using old [OF voted(1)] j by auto
    qed
    then show ?thesis using voted(5) by simp
  next
    case (released p sid)
    then show ?thesis using old [of p] by simp
  qed
qed

lemma sequential_ids_length:
  assumes "sequential_ids sols"
  shows "length sols < 2 ^ 64"
proof (cases "length sols = 0")
  case True
  then show ?thesis by simp
next
  case False
  then have "length sols - 1 < length sols" by simp
  then have "unat (s_id (sols ! (length sols - 1))) = length sols - 1 + 1"
    using assms unfolding sequential_ids_def by blast
  moreover have "unat (s_id (sols ! (length sols - 1))) < 2 ^ 64"
    using unsigned_less [of "s_id (sols ! (length sols - 1))", where 'a = nat] by simp
  ultimately show ?thesis using False by simp
qed

lemma unat_vector_length: "length v < 2 ^ 64 \<Longrightarrow> unat (vector_length v) = length v"
  by (simp add: vector_length_def unat_of_nat)

lemma sequential_ids_append:
  assumes "sequential_ids sols" "unat (vector_length sols) < 2 ^ 64 - 1"
  shows "sequential_ids (sols @ [\<lparr>s_id = vector_length sols + 1, s_solver = a, s_cid = c, s_votes = 0\<rparr>])"
proof -
  have "length sols < 2 ^ 64" using assms(1) by (rule sequential_ids_length)
  then have "unat (vector_length sols) = length sols" by (rule unat_vector_length)
  then have "unat (vector_length sols + 1) = length sols + 1"
    using unat_plus_one [OF assms(2)] by simp
  then show ?thesis using assms(1)
    by (auto simp: sequential_ids_def nth_append less_Suc_eq)
qed

lemma sequential_ids_update:
  "sequential_ids sols \<Longrightarrow> j < length sols \<Longrightarrow>
   sequential_ids (sols[j := (sols ! j)\<lparr>s_votes := v\<rparr>])"
  by (auto simp: sequential_ids_def nth_list_update)

lemma solutions_inv_step:
  assumes "solutions_inv s" and "step s s'"
  shows "solutions_inv s'"
  unfolding solutions_inv_def
proof (intro allI impI)
  fix a k p'
  assume p': "problems_of s' a k = Some p'"
  have old: "problems_of s a k = Some p \<Longrightarrow> sequential_ids (p_solutions p)" for p
    using assms(1) by (simp add: solutions_inv_def)
  from assms(2) p' show "sequential_ids (p_solutions p')"
  proof (cases rule: step_problem)
    case unchanged
    then show ?thesis by (rule old)
  next
    case (created cid lat lng b)
    then show ?thesis by (simp add: new_problem_def sequential_ids_def)
  next
    case (added p cid)
    then show ?thesis using old [of p] by (simp add: sequential_ids_append)
  next
    case (voted p j sid)
    then show ?thesis using old [of p] by (simp add: sequential_ids_update first_match_def)
  next
    case (released p sid)
    then show ?thesis using old [of p] by simp
  qed
qed

lemma problems_of_init [simp]: "problems_of \<lparr>registries = Map.empty, coin_store = bal\<rparr> a = Map.empty"
  by (simp add: problems_of_def)

lemma next_id_init [simp]: "next_id \<lparr>registries = Map.empty, coin_store = bal\<rparr> a = 1"
  by (simp add: next_id_def)

lemma reachable_counter_inv: "reachable s \<Longrightarrow> counter_inv s"
proof (induction rule: reachable.induct)
  case (reachable_init bal)
  show ?case by (simp add: counter_inv_def)
next
  case (reachable_step s s')
  then show ?case by (blast intro: counter_inv_step)
next
  case (reachable_coin s bal)
  then show ?case by (simp add: counter_inv_def)
qed

lemma reachable_dense_ids: "reachable s \<Longrightarrow> dense_ids s"
proof (induction rule: reachable.induct)
  case (reachable_init bal)
  show ?case by (simp add: dense_ids_def word_one_le)
next
  case (reachable_step s s')
  then show ?case by (blast intro: dense_ids_step)
next
  case (reachable_coin s bal)
  then show ?case by (simp add: dense_ids_def)
qed

lemma reachable_chosen_inv: "reachable s \<Longrightarrow> chosen_inv s"
proof (induction rule: reachable.induct)
  case (reachable_init bal)
  show ?case by (simp add: chosen_inv_def)
next
  case (reachable_step s s')
  then show ?case by (blast intro: chosen_inv_step)
next
  case (reachable_coin s bal)
  then show ?case by (simp add: chosen_inv_def)
qed

lemma reachable_owner_inv: "reachable s \<Longrightarrow> owner_inv s"
proof (induction rule: reachable.induct)
  case (reachable_init bal)
  show ?case by (simp add: owner_inv_def)
next
  case (reachable_step s s')
  then show ?case by (blast intro: owner_inv_step)
next
  case (reachable_coin s bal)
  then show ?case by (simp add: owner_inv_def)
qed

lemma reachable_solver_inv: "reachable s \<Longrightarrow> solver_inv s"
proof (induction rule: reachable.induct)
  case (reachable_init bal)
  show ?case by (simp add: solver_inv_def)
next
  case (reachable_step s s')
  then show ?case by (blast intro: solver_inv_step)
next
  case (reachable_coin s bal)
  then show ?case by (simp add: solver_inv_def)
qed

lemma reachable_solutions_inv: "reachable s \<Longrightarrow> solutions_inv s"
proof (induction rule: reachable.induct)
  case (reachable_init bal)
  show ?case by (simp add: solutions_inv_def)
next
  case (reachable_step s s')
  then show ?case by (blast intro: solutions_inv_step)
next
  case (reachable_coin s bal)
  then show ?case by (simp add: solutions_inv_def)
qed

lemma owner_invD: "owner_inv s \<Longrightarrow> problems_of s a k = Some p \<Longrightarrow> p_owner p = a"
  unfolding owner_inv_def by blast

lemma solutions_invD:
  "solutions_inv s \<Longrightarrow> problems_of s a k = Some p \<Longrightarrow> sequential_ids (p_solutions p)"
  unfolding solutions_inv_def by blast

lemma sequential_idsD:
  "sequential_ids sols \<Longrightarrow> i < length sols \<Longrightarrow> unat (s_id (sols ! i)) = i + 1"
  unfolding sequential_ids_def by blast

lemma solver_invD:
  "solver_inv s \<Longrightarrow> problems_of s a k = Some p \<Longrightarrow> x \<in> set (p_solutions p) \<Longrightarrow> s_solver x = a"
  unfolding solver_inv_def by blast

lemma counter_inv_free:
  assumes "counter_inv s"
  shows "problems_of s a (next_id s a) = None"
proof (rule ccontr)
  assume "problems_of s a (next_id s a) \<noteq> None"
  then have "next_id s a < next_id s a" using assms unfolding counter_inv_def by blast
  then show False by simp
qed


section \<open>The example states are what the entry functions compute\<close>

lemma create_fresh:
  "create_problem fresh_state 10 Qm111 lat_ex lng_ex 10000000 = Inr created_state"
  by (simp add: example_defs eval_defs fun_eq_iff)

lemma add_created:
  "add_solution created_state 10 1 10 Qm222 = Inr self_solved_state"
  by (simp add: example_defs eval_defs fun_eq_iff)

lemma add_self_solved:
  "add_solution self_solved_state 10 1 10 Qm111 = Inr twice_solved_state"
  by (simp add: example_defs eval_defs fun_eq_iff)

lemma create_created:
  "create_problem created_state 10 Qm222 lat_ex lng_ex 0 = Inr created_twice_state"
  by (simp add: example_defs eval_defs fun_eq_iff)

lemma create_released:
  "create_problem released_state 11 Qm222 lat_ex lng_ex 0 = Inr later_state"
  by (simp add: example_defs eval_defs fun_eq_iff)

lemma reachable_fresh: "reachable fresh_state"
  unfolding fresh_state_def by (rule reachable_init)

lemma reachable_created: "reachable created_state"
  using reachable_fresh create_fresh by (blast intro: reachable_step step_create)

lemma reachable_self_solved: "reachable self_solved_state"
  using reachable_created add_created by (blast intro: reachable_step step_add)

lemma reachable_twice_solved: "reachable twice_solved_state"
  using reachable_self_solved add_self_solved by (blast intro: reachable_step step_add)

lemma reachable_created_twice: "reachable created_twice_state"
  using reachable_created create_created by (blast intro: reachable_step step_create)

lemma counter_inv_created: "counter_inv created_state"
  by (auto simp: counter_inv_def problems_of_def next_id_def example_defs
      split: if_splits option.splits)

lemma dense_ids_created: "dense_ids created_state"
  using reachable_created by (rule reachable_dense_ids)


lemma problems_of_twice_solved: "problems_of twice_solved_state 10 1 = Some twice_solved_problem"
  by (simp add: problems_of_def twice_solved_state_def twice_solved_registry_def)


lemma release_two_party:
  "release_reward two_party_state 10 1 1 = Inr released_state"
  by (simp add: example_defs eval_defs fun_eq_iff)

lemma release_underfunded:
  "release_reward underfunded_state 10 1 1 = Inl InsufficientBalance"
  by (simp add: underfunded_state_def two_party_registry_def two_party_problem_def eval_defs)


section \<open>The states at the limits are reachable\<close>

lemma create_solutions_state:
  "create_problem \<lparr>registries = Map.empty, coin_store = Map.empty\<rparr> 10 [] [] [] 0 =
     Inr (solutions_state 0)"
  by (simp add: solutions_state_def eval_defs fun_eq_iff)

lemma add_solutions_state:
  assumes "n < 2 ^ 64 - 1"
  shows "add_solution (solutions_state n) 10 1 10 [] = Inr (solutions_state (Suc n))"
proof -
  have u: "unat (of_nat n :: u64) = n" using assms by (intro unat_of_nat_u64) simp
  have a: "add_u64 (of_nat n) 1 = Inr (1 + of_nat n)"
    using u assms by (simp add: add_u64_one)
  show ?thesis
    by (simp add: solutions_state_def add_solution_def borrow_global_def table_borrow_def
        vector_length_def a write_problem_def new_problem_def)
qed

lemma reachable_solutions_state: "n \<le> 2 ^ 64 - 1 \<Longrightarrow> reachable (solutions_state n)"
proof (induction n)
  case 0
  have "reachable \<lparr>registries = Map.empty, coin_store = Map.empty\<rparr>" by (rule reachable_init)
  then show ?case using create_solutions_state by (blast intro: reachable_step step_create)
next
  case (Suc n)
  then have "reachable (solutions_state n)" and "n < 2 ^ 64 - 1" by simp_all
  then show ?case using add_solutions_state by (blast intro: reachable_step step_add)
qed

lemma solutions_state_1: "solutions_state (Suc 0) = votes_state 0"
  by (simp add: solutions_state_def votes_state_def)

lemma vote_votes_state:
  assumes "n < 2 ^ 64 - 1"
  shows "vote_solution (votes_state n) 10 1 1 = Inr (votes_state (Suc n))"
proof -
  have u: "unat (of_nat n :: u64) = n" using assms by (intro unat_of_nat_u64) simp
  have a: "add_u64 (of_nat n) 1 = Inr (1 + of_nat n)"
    using u assms by (simp add: add_u64_one)
  have "vote_scan [\<lparr>s_id = 1, s_solver = 10, s_cid = [], s_votes = of_nat n\<rparr>] 1 0 =
      Inr [\<lparr>s_id = 1, s_solver = 10, s_cid = [], s_votes = 1 + of_nat n\<rparr>]"
    by (subst vote_scan.simps) (simp add: a)
  then show ?thesis
    by (simp add: votes_state_def vote_solution_def borrow_global_def table_borrow_def
        write_problem_def new_problem_def)
qed

lemma reachable_votes_state: "n \<le> 2 ^ 64 - 1 \<Longrightarrow> reachable (votes_state n)"
proof (induction n)
  case 0
  have "reachable (solutions_state (Suc 0))" by (rule reachable_solutions_state) simp
  then show ?case by (simp only: solutions_state_1)
next
  case (Suc n)
  then have "reachable (votes_state n)" and "n < 2 ^ 64 - 1" by simp_all
  then show ?case using vote_votes_state by (blast intro: reachable_step step_vote)
qed


lemma next_id_counter_state: "next_id (counter_state n) 10 = of_nat (n + 1)"
  by (simp add: next_id_def counter_state_def)

lemma problems_of_counter_state:
  "problems_of (counter_state n) 10 =
     (\<lambda>k. if 1 \<le> unat k \<and> unat k \<le> n then Some (new_problem k 10 [] [] [] 0) else None)"
  by (auto simp: problems_of_def counter_state_def fun_eq_iff)

lemma create_counter_state:
  assumes "n < 2 ^ 64 - 2"
  shows "create_problem (counter_state n) 10 [] [] [] 0 = Inr (counter_state (Suc n))"
proof -
  define k0 :: u64 where "k0 = of_nat (n + 1)"
  have u: "unat k0 = n + 1"
    unfolding k0_def using assms by (intro unat_of_nat_u64) simp
  have nid: "next_id (counter_state n) 10 = k0"
    by (simp only: next_id_counter_state k0_def)
  have lt: "unat (next_id (counter_state n) 10) < 2 ^ 64 - 1"
    using u assms by (simp add: nid)
  have free: "problems_of (counter_state n) 10 (next_id (counter_state n) 10) = None"
    using u by (simp add: nid problems_of_counter_state)
  have nxt: "k0 + 1 = of_nat (Suc n + 1)" by (simp add: k0_def)
  have tab: "(\<lambda>k. if 1 \<le> unat k \<and> unat k \<le> n then Some (new_problem k 10 [] [] [] 0) else None)
      (k0 \<mapsto> new_problem k0 10 [] [] [] 0) =
    (\<lambda>k. if 1 \<le> unat k \<and> unat k \<le> Suc n then Some (new_problem k 10 [] [] [] 0) else None)"
  proof (rule ext)
    fix k :: u64
    show "((\<lambda>k. if 1 \<le> unat k \<and> unat k \<le> n then Some (new_problem k 10 [] [] [] 0) else None)
      (k0 \<mapsto> new_problem k0 10 [] [] [] 0)) k =
      (if 1 \<le> unat k \<and> unat k \<le> Suc n then Some (new_problem k 10 [] [] [] 0) else None)"
    proof (cases "k = k0")
      case True
      then show ?thesis using u by simp
    next
      case False
      then have "unat k \<noteq> n + 1" using u by (metis word_unat_eq_iff)
      then have "unat k \<le> Suc n \<longleftrightarrow> unat k \<le> n" by arith
      then show ?thesis using False by simp
    qed
  qed
  have regs: "(registries (counter_state n))(10 \<mapsto> r) = Map.empty(10 \<mapsto> r)" for r
    by (simp add: counter_state_def)
  have "create_problem (counter_state n) 10 [] [] [] 0 =
      Inr ((counter_state n)\<lparr>registries := (registries (counter_state n))(10 \<mapsto>
             \<lparr>next_problem_id = k0 + 1,
              problems = (problems_of (counter_state n) 10)(k0 \<mapsto> new_problem k0 10 [] [] [] 0)\<rparr>)\<rparr>)"
    using lt free by (simp add: create_problem_eq nid)
  also have "\<dots> = Inr (counter_state (Suc n))"
    unfolding regs problems_of_counter_state tab nxt
    by (simp add: counter_state_def)
  finally show ?thesis .
qed

lemma reachable_counter_state: "n \<le> 2 ^ 64 - 2 \<Longrightarrow> reachable (counter_state n)"
proof (induction n)
  case 0
  show ?case by (simp add: counter_state_def reachable_init)
next
  case (Suc n)
  then have "reachable (counter_state n)" and "n < 2 ^ 64 - 2" by simp_all
  then show ?case using create_counter_state by (blast intro: reachable_step step_create)
qed


lemma reachable_full_counter: "reachable full_counter_state"
  unfolding full_counter_state_def by (rule reachable_counter_state) simp

lemma next_id_full_counter: "unat (next_id full_counter_state 10) = 18446744073709551615"
proof -
  have "unat (of_nat (2 ^ 64 - 2 + 1) :: u64) = 2 ^ 64 - 2 + 1"
    by (intro unat_of_nat_u64) simp
  then show ?thesis
    by (simp only: full_counter_state_def next_id_counter_state) simp
qed

lemma create_full_counter:
  "create_problem full_counter_state 10 Qm111 lat_ex lng_ex 10000000 = Inl ArithmeticError"
  using next_id_full_counter by (simp add: create_problem_eq)

lemma reachable_full_solutions: "reachable full_solutions_state"
  unfolding full_solutions_state_def by (rule reachable_solutions_state) simp

lemma open_full_solutions:
  "problems_of full_solutions_state 10 1 \<noteq> None" "\<not> closed_at full_solutions_state 10 1"
  by (simp_all add: closed_at_def problems_of_def full_solutions_state_def
      solutions_state_def new_problem_def)

lemma add_full_solutions:
  "add_solution full_solutions_state 10 1 10 Qm222 = Inl ArithmeticError"
proof -
  have a: "add_u64 18446744073709551615 1 = Inl ArithmeticError"
    by (simp add: add_u64_one)
  show ?thesis
    by (simp add: full_solutions_state_def solutions_state_def add_solution_def
        borrow_global_def table_borrow_def vector_length_def new_problem_def a)
qed

lemma reachable_max_votes: "reachable max_votes_state"
  unfolding max_votes_state_def by (rule reachable_votes_state) simp

lemma max_votes_state_eq:
  "max_votes_state = \<lparr>registries = Map.empty(10 \<mapsto> max_votes_registry), coin_store = Map.empty\<rparr>"
  by (simp add: max_votes_state_def votes_state_def max_votes_registry_def
      max_votes_problem_def)

lemma problems_of_max_votes: "problems_of max_votes_state 10 1 = Some max_votes_problem"
  by (simp add: max_votes_state_eq problems_of_def max_votes_registry_def)

lemma open_max_votes: "\<not> closed_at max_votes_state 10 1"
  by (simp add: closed_at_def problems_of_max_votes max_votes_problem_def new_problem_def)

lemma vote_max_votes: "vote_solution max_votes_state 10 1 1 = Inl ArithmeticError"
proof -
  have "vote_scan (p_solutions max_votes_problem) 1 0 = Inl ArithmeticError"
    by (subst vote_scan.simps) (simp add: add_u64_one max_votes_problem_def)
  then show ?thesis
    by (simp add: max_votes_state_eq max_votes_registry_def vote_solution_def
        borrow_global_def table_borrow_def)
       (simp add: max_votes_problem_def new_problem_def)
qed

section \<open>Release of the reward\<close>

lemma release_reward_success:
  assumes "release_reward s addr k sid = Inr s'"
  shows "\<exists>reg p j bo bs. registries s addr = Some reg \<and> problems reg k = Some p \<and>
      p_owner p = addr \<and> p_open p \<and>
      first_match (p_solutions p) sid j \<and> s_solver (p_solutions p ! j) \<noteq> addr \<and>
      coin_store s addr = Some bo \<and> coin_store s (s_solver (p_solutions p ! j)) = Some bs \<and>
      unat (p_bounty_octas p) \<le> unat bo \<and>
      unat (bo - p_bounty_octas p) = unat bo - unat (p_bounty_octas p) \<and>
      unat (bs + p_bounty_octas p) = unat bs + unat (p_bounty_octas p) \<and>
      coin_store s' = (coin_store s)(addr \<mapsto> bo - p_bounty_octas p,
         s_solver (p_solutions p ! j) \<mapsto> bs + p_bounty_octas p) \<and>
      registries s' = (registries s)(addr \<mapsto>
         reg\<lparr>problems := (problems reg)(k \<mapsto> p\<lparr>p_open := False, p_chosen := Some sid\<rparr>)\<rparr>)"
  using assms
proof (rule release_reward_Inr)
  fix reg p bal
  assume r: "registries s addr = Some reg" "problems reg k = Some p" "p_open p" "p_owner p = addr"
    and f: "release_scan (p_solutions p) sid 0 addr \<noteq> addr"
    and t: "coin_transfer (coin_store s) addr (release_scan (p_solutions p) sid 0 addr)
       (p_bounty_octas p) = Inr bal"
    and s': "s' = write_problem (s\<lparr>coin_store := bal\<rparr>) addr reg k
            (p\<lparr>p_open := False, p_chosen := Some sid\<rparr>)"
  from f obtain j where j: "first_match (p_solutions p) sid j"
    "release_scan (p_solutions p) sid 0 addr = s_solver (p_solutions p ! j)"
    by (rule release_scan_found)
  from t f obtain bo bs where b: "coin_store s addr = Some bo"
    "coin_store s (release_scan (p_solutions p) sid 0 addr) = Some bs"
    "p_bounty_octas p \<le> bo" "unat bs + unat (p_bounty_octas p) < 2 ^ 64"
    "bal = (coin_store s)(addr \<mapsto> bo - p_bounty_octas p,
        release_scan (p_solutions p) sid 0 addr \<mapsto> bs + p_bounty_octas p)"
    by (rule coin_transfer_Inr)
  have le: "unat (p_bounty_octas p) \<le> unat bo" using b(3) by (simp add: word_le_nat_alt)
  have sub: "unat (bo - p_bounty_octas p) = unat bo - unat (p_bounty_octas p)"
    using b(3) by (rule unat_sub)
  have "unat bs + unat (p_bounty_octas p) < 2 ^ LENGTH(64)" using b(4) by simp
  then have add: "unat (bs + p_bounty_octas p) = unat bs + unat (p_bounty_octas p)"
    by (simp only: unat_add_lem)
  show ?thesis
    by (rule exI [of _ reg], rule exI [of _ p], rule exI [of _ j], rule exI [of _ bo],
        rule exI [of _ bs])
       (use r j f b(1,2,5) le sub add s' in \<open>simp add: write_problem_def\<close>)
qed

lemma release_reward_insufficient:
  assumes "registries s addr = Some reg" "problems reg k = Some p"
    "coin_store s addr = Some bo" "bo < p_bounty_octas p"
  shows "\<exists>e. release_reward s addr k sid = Inl e"
  using assms
  by (auto simp: release_reward_def borrow_global_def table_borrow_def coin_transfer_def)

text \<open>
  Claim C3. For every call, \<open>release_reward\<close> either fails, and the state after the
  call is the state before it, or it succeeds, and then: the problem is in the caller's
  registry, owned by the caller and open; the first solution with the given id credits
  another address; exactly the bounty has left the caller's balance and reached that
  solver's balance (no wrap-around on either side); the problem is now closed with
  \<open>chosen\<close> set to the solution id; and nothing else has changed. Where the caller's
  balance is below the bounty the call fails and changes nothing.
\<close>

theorem release_reward_atomic:
  "((\<exists>e. release_reward s addr k sid = Inl e) \<and> exec (\<lambda>s. release_reward s addr k sid) s = s
    \<or> (\<exists>s' reg p j bo bs. release_reward s addr k sid = Inr s' \<and>
         exec (\<lambda>s. release_reward s addr k sid) s = s' \<and>
         registries s addr = Some reg \<and> problems reg k = Some p \<and>
         p_owner p = addr \<and> p_open p \<and>
         first_match (p_solutions p) sid j \<and> s_solver (p_solutions p ! j) \<noteq> addr \<and>
         coin_store s addr = Some bo \<and> coin_store s (s_solver (p_solutions p ! j)) = Some bs \<and>
         unat (p_bounty_octas p) \<le> unat bo \<and>
         unat (bo - p_bounty_octas p) = unat bo - unat (p_bounty_octas p) \<and>
         unat (bs + p_bounty_octas p) = unat bs + unat (p_bounty_octas p) \<and>
         coin_store s' = (coin_store s)(addr \<mapsto> bo - p_bounty_octas p,
            s_solver (p_solutions p ! j) \<mapsto> bs + p_bounty_octas p) \<and>
         registries s' = (registries s)(addr \<mapsto>
            reg\<lparr>problems := (problems reg)(k \<mapsto> p\<lparr>p_open := False, p_chosen := Some sid\<rparr>)\<rparr>)))
   \<and> (\<forall>reg p bo. registries s addr = Some reg \<and> problems reg k = Some p \<and>
         coin_store s addr = Some bo \<and> bo < p_bounty_octas p \<longrightarrow>
         (\<exists>e. release_reward s addr k sid = Inl e) \<and>
         exec (\<lambda>s. release_reward s addr k sid) s = s)"
proof (intro conjI allI impI)
  show "(\<exists>e. release_reward s addr k sid = Inl e) \<and> exec (\<lambda>s. release_reward s addr k sid) s = s
    \<or> (\<exists>s' reg p j bo bs. release_reward s addr k sid = Inr s' \<and>
         exec (\<lambda>s. release_reward s addr k sid) s = s' \<and>
         registries s addr = Some reg \<and> problems reg k = Some p \<and>
         p_owner p = addr \<and> p_open p \<and>
         first_match (p_solutions p) sid j \<and> s_solver (p_solutions p ! j) \<noteq> addr \<and>
         coin_store s addr = Some bo \<and> coin_store s (s_solver (p_solutions p ! j)) = Some bs \<and>
         unat (p_bounty_octas p) \<le> unat bo \<and>
         unat (bo - p_bounty_octas p) = unat bo - unat (p_bounty_octas p) \<and>
         unat (bs + p_bounty_octas p) = unat bs + unat (p_bounty_octas p) \<and>
         coin_store s' = (coin_store s)(addr \<mapsto> bo - p_bounty_octas p,
            s_solver (p_solutions p ! j) \<mapsto> bs + p_bounty_octas p) \<and>
         registries s' = (registries s)(addr \<mapsto>
            reg\<lparr>problems := (problems reg)(k \<mapsto> p\<lparr>p_open := False, p_chosen := Some sid\<rparr>)\<rparr>))"
  proof (cases "release_reward s addr k sid")
    case (Inl e)
    then show ?thesis by (simp add: exec_def)
  next
    case (Inr s')
    from release_reward_success [OF Inr] Inr show ?thesis
      by (intro disjI2 exI [of _ s']) (simp add: exec_def)
  qed
next
  fix reg p bo
  assume "registries s addr = Some reg \<and> problems reg k = Some p \<and>
         coin_store s addr = Some bo \<and> bo < p_bounty_octas p"
  then obtain e where e: "release_reward s addr k sid = Inl e"
    using release_reward_insufficient by blast
  then show "\<exists>e. release_reward s addr k sid = Inl e" by blast
  from e show "exec (\<lambda>s. release_reward s addr k sid) s = s" by (simp add: exec_def)
qed

text \<open>
  Both cases at concrete states: with a balance of 25000000 the release of the bounty of
  10000000 succeeds and moves exactly that amount from A to B; with a balance of 9999999
  it fails and the state stays as it was.
\<close>

theorem release_reward_atomic_witness:
  "first_match (p_solutions two_party_problem) 1 0
   \<and> release_reward two_party_state 10 1 1 = Inr released_state
   \<and> exec (\<lambda>s. release_reward s 10 1 1) two_party_state = released_state
   \<and> coin_store two_party_state 10 = Some 25000000
   \<and> coin_store released_state 10 = Some 15000000
   \<and> coin_store two_party_state 11 = Some 5
   \<and> coin_store released_state 11 = Some 10000005
   \<and> registries underfunded_state 10 = Some two_party_registry
   \<and> problems two_party_registry 1 = Some two_party_problem
   \<and> coin_store underfunded_state 10 = Some 9999999
   \<and> (9999999 :: u64) < p_bounty_octas two_party_problem
   \<and> release_reward underfunded_state 10 1 1 = Inl InsufficientBalance
   \<and> exec (\<lambda>s. release_reward s 10 1 1) underfunded_state = underfunded_state"
proof -
  have hyp: "registries underfunded_state 10 = Some two_party_registry
      \<and> problems two_party_registry 1 = Some two_party_problem
      \<and> coin_store underfunded_state 10 = Some 9999999
      \<and> (9999999 :: u64) < p_bounty_octas two_party_problem"
    by (simp add: underfunded_state_def two_party_registry_def two_party_problem_def
        new_problem_def)
  have unchanged: "exec (\<lambda>s. release_reward s 10 1 1) underfunded_state = underfunded_state"
    using release_reward_atomic [of underfunded_state 10 1 1] hyp by blast
  have "\<not> (\<exists>e. release_reward two_party_state 10 1 1 = Inl e)"
    by (simp add: release_two_party)
  then have moved: "exec (\<lambda>s. release_reward s 10 1 1) two_party_state = released_state"
    using release_reward_atomic [of two_party_state 10 1 1] release_two_party by auto
  have fm: "first_match (p_solutions two_party_problem) 1 0"
    by (simp add: first_match_def two_party_problem_def)
  have bal: "coin_store two_party_state 10 = Some 25000000"
    "coin_store released_state 10 = Some 15000000"
    "coin_store two_party_state 11 = Some 5"
    "coin_store released_state 11 = Some 10000005"
    by (simp_all add: two_party_state_def released_state_def)
  show ?thesis
    using hyp unchanged moved fm bal release_two_party release_underfunded by simp
qed

section \<open>Closing is final\<close>

lemma release_reward_closed:
  assumes "problems_of s a k = Some p" "\<not> p_open p" "p_owner p = a"
  shows "release_reward s a k sid = Inl (Abort 6)"
  using assms
  by (auto simp: release_reward_def borrow_global_def table_borrow_def problems_of_def
      split: option.splits)

lemma release_reward_closes:
  assumes "release_reward s a k sid = Inr s'"
  shows "\<exists>p. problems_of s a k = Some p \<and> p_open p \<and> p_owner p = a \<and>
    problems_of s' a k = Some (p\<lparr>p_open := False, p_chosen := Some sid\<rparr>)"
  using assms by (elim release_reward_Inr) (simp add: problems_of_Some)

lemma steps_keep_closed:
  assumes "step\<^sup>*\<^sup>* s s'" "problems_of s a k = Some p" "\<not> p_open p"
  shows "problems_of s' a k = Some p"
  using assms
proof (induction rule: rtranclp_induct)
  case base
  then show ?case by simp
next
  case (step y z)
  then have "problems_of y a k = Some p" by simp
  with step.hyps(2) step.prems(2) show ?case using step_keeps [of y z a k p] by auto
qed

text \<open>
  Claim C4. In every reachable state \<open>chosen\<close> is set exactly on the closed problems,
  and every transaction keeps it so. A closed problem stays closed, and unchanged, under
  every transaction. A release on a closed problem fails with abort code 6 (the problem
  is closed) and changes nothing; in particular, once a release has succeeded, every later
  release on that problem, after any number of further transactions, fails with code 6.
\<close>

theorem closed_is_final:
  "(reachable s \<longrightarrow> chosen_inv s)
   \<and> (chosen_inv s \<and> step s s' \<longrightarrow> chosen_inv s')
   \<and> (closed_at s a k \<and> step s s' \<longrightarrow> closed_at s' a k \<and> problems_of s' a k = problems_of s a k)
   \<and> (closed_at s a k \<and> owner_inv s \<longrightarrow>
        release_reward s a k sid = Inl (Abort 6) \<and> exec (\<lambda>s. release_reward s a k sid) s = s)
   \<and> (release_reward s a k sid = Inr s' \<and> step\<^sup>*\<^sup>* s' s'' \<longrightarrow>
        \<not> closed_at s a k \<and> closed_at s' a k \<and> closed_at s'' a k \<and>
        release_reward s'' a k sid2 = Inl (Abort 6) \<and>
        exec (\<lambda>s. release_reward s a k sid2) s'' = s'')"
proof (intro conjI impI)
  assume "reachable s"
  then show "chosen_inv s" by (rule reachable_chosen_inv)
next
  assume "chosen_inv s \<and> step s s'"
  then show "chosen_inv s'" using chosen_inv_step by blast
next
  assume a: "closed_at s a k \<and> step s s'"
  then obtain p where p: "problems_of s a k = Some p" "\<not> p_open p"
    by (auto simp: closed_at_def split: option.splits)
  with a have "problems_of s' a k = Some p" using step_keeps [of s s' a k p] by auto
  with p show "closed_at s' a k" "problems_of s' a k = problems_of s a k"
    by (simp_all add: closed_at_def)
next
  assume a: "closed_at s a k \<and> owner_inv s"
  then obtain p where p: "problems_of s a k = Some p" "\<not> p_open p"
    by (auto simp: closed_at_def split: option.splits)
  with a have "p_owner p = a" using owner_invD by blast
  with p show r: "release_reward s a k sid = Inl (Abort 6)" by (rule release_reward_closed)
  then show "exec (\<lambda>s. release_reward s a k sid) s = s" by (simp add: exec_def)
next
  assume a: "release_reward s a k sid = Inr s' \<and> step\<^sup>*\<^sup>* s' s''"
  then obtain p where p: "problems_of s a k = Some p" "p_open p" "p_owner p = a"
    "problems_of s' a k = Some (p\<lparr>p_open := False, p_chosen := Some sid\<rparr>)"
    using release_reward_closes by blast
  then show "\<not> closed_at s a k" "closed_at s' a k" by (simp_all add: closed_at_def)
  have later: "problems_of s'' a k = Some (p\<lparr>p_open := False, p_chosen := Some sid\<rparr>)"
    using a p(4) steps_keep_closed [of s' s'' a k] by simp
  then show "closed_at s'' a k" by (simp add: closed_at_def)
  have "release_reward s'' a k sid2 = Inl (Abort 6)"
    using release_reward_closed [OF later, of sid2] p(3) by simp
  then show r: "release_reward s'' a k sid2 = Inl (Abort 6)" .
  then show "exec (\<lambda>s. release_reward s a k sid2) s'' = s''" by (simp add: exec_def)
qed

text \<open>
  At concrete states: the release of \<open>two_party_state\<close> closes problem 1; it stays
  closed when B creates a problem afterwards; a second release is refused with code 6
  and moves nothing.
\<close>

lemma chosen_inv_two_party: "chosen_inv two_party_state"
  by (auto simp: chosen_inv_def problems_of_def example_defs new_problem_def
      split: if_splits option.splits)

lemma owner_inv_released: "owner_inv released_state"
  by (auto simp: owner_inv_def problems_of_def example_defs new_problem_def
      split: if_splits option.splits)

lemma closed_at_released: "closed_at released_state 10 1"
  by (simp add: closed_at_def problems_of_def example_defs)

theorem closed_is_final_witness:
  "reachable self_solved_state \<and> chosen_inv self_solved_state
   \<and> chosen_inv two_party_state \<and> step two_party_state released_state
   \<and> chosen_inv released_state
   \<and> closed_at released_state 10 1 \<and> step released_state later_state
   \<and> closed_at later_state 10 1
   \<and> problems_of later_state 10 1 = problems_of released_state 10 1
   \<and> owner_inv released_state
   \<and> release_reward released_state 10 1 1 = Inl (Abort 6)
   \<and> exec (\<lambda>s. release_reward s 10 1 1) released_state = released_state
   \<and> release_reward two_party_state 10 1 1 = Inr released_state
   \<and> step\<^sup>*\<^sup>* released_state later_state
   \<and> \<not> closed_at two_party_state 10 1
   \<and> release_reward later_state 10 1 1 = Inl (Abort 6)
   \<and> exec (\<lambda>s. release_reward s 10 1 1) later_state = later_state"
proof -
  have s1: "step two_party_state released_state"
    using release_two_party by (rule step_release)
  have s2: "step released_state later_state"
    using create_released by (rule step_create)
  then have s3: "step\<^sup>*\<^sup>* released_state later_state" by (rule r_into_rtranclp)
  note a = closed_is_final [where s = self_solved_state]
  note b = closed_is_final [where s = two_party_state and s' = released_state and a = 10
      and k = 1 and sid = 1 and s'' = later_state and ?sid2.0 = 1]
  note c = closed_is_final [where s = released_state and s' = later_state and a = 10
      and k = 1 and sid = 1]
  have "chosen_inv self_solved_state" using a reachable_self_solved by blast
  moreover have "chosen_inv released_state" using b chosen_inv_two_party s1 by blast
  moreover have "closed_at later_state 10 1
      \<and> problems_of later_state 10 1 = problems_of released_state 10 1"
    using c closed_at_released s2 by blast
  moreover have "release_reward released_state 10 1 1 = Inl (Abort 6)
      \<and> exec (\<lambda>s. release_reward s 10 1 1) released_state = released_state"
    using c closed_at_released owner_inv_released by blast
  moreover have "\<not> closed_at two_party_state 10 1
      \<and> release_reward later_state 10 1 1 = Inl (Abort 6)
      \<and> exec (\<lambda>s. release_reward s 10 1 1) later_state = later_state"
    using b release_two_party s3 by blast
  ultimately show ?thesis
    using reachable_self_solved chosen_inv_two_party s1 s2 s3 closed_at_released
      owner_inv_released release_two_party by blast
qed

section \<open>The owner of a problem\<close>

lemma release_reward_not_found:
  assumes "problems_of s c k = None"
  shows "release_reward s c k sid = Inl MissingResource \<or> release_reward s c k sid = Inl TableKeyMissing"
  using assms
  by (auto simp: release_reward_def borrow_global_def table_borrow_def problems_of_def
      split: option.splits)

lemma release_reward_Abort5:
  assumes "release_reward s c k sid = Inl (Abort 5)"
  shows "\<exists>p. problems_of s c k = Some p \<and> p_owner p \<noteq> c"
  using assms
  by (auto simp: release_reward_def borrow_global_def table_borrow_def problems_of_def
      coin_transfer_def add_u64_def
      split: option.splits if_splits sum.splits)

text \<open>
  Claim C9. Every problem stored in the registry at an address has that address as its
  owner: \<open>create_problem\<close> sets it so and every transaction keeps it so. Hence in a
  reachable state \<open>release_reward\<close> never fails on its ownership check (abort code 5);
  a caller other than the owner looks into its own registry, where the owner's problem
  is not, and where nothing is stored under the problem id the call fails on the missing
  registry or the missing table key.
\<close>

theorem owner_is_registry_address:
  "(owner_inv s \<and> step s s' \<longrightarrow> owner_inv s')
   \<and> (create_problem s a cid lat lng b = Inr s' \<longrightarrow>
        (\<exists>p. problems_of s' a (next_id s a) = Some p \<and> p_owner p = a))
   \<and> (reachable s \<longrightarrow> owner_inv s \<and> release_reward s c k sid \<noteq> Inl (Abort 5) \<and>
        (problems_of s a k = Some p \<and> c \<noteq> a \<longrightarrow>
           p_owner p = a \<and> problems_of s c k \<noteq> Some p \<and>
           (problems_of s c k = None \<longrightarrow>
              release_reward s c k sid = Inl MissingResource \<or>
              release_reward s c k sid = Inl TableKeyMissing)))"
proof (intro conjI impI)
  assume "owner_inv s \<and> step s s'"
  then show "owner_inv s'" using owner_inv_step by blast
next
  assume "create_problem s a cid lat lng b = Inr s'"
  then have "problems_of s' a (next_id s a) =
      Some (new_problem (next_id s a) a cid lat lng b)"
    by (simp add: create_problem_eq split: if_splits) auto
  then show "\<exists>p. problems_of s' a (next_id s a) = Some p \<and> p_owner p = a"
    by (simp add: new_problem_def)
next
  assume r: "reachable s"
  then show o: "owner_inv s" by (rule reachable_owner_inv)
  show "release_reward s c k sid \<noteq> Inl (Abort 5)"
  proof
    assume "release_reward s c k sid = Inl (Abort 5)"
    then obtain q where "problems_of s c k = Some q" "p_owner q \<noteq> c"
      using release_reward_Abort5 by blast
    with o show False using owner_invD by blast
  qed
  assume p: "problems_of s a k = Some p \<and> c \<noteq> a"
  with o show pa: "p_owner p = a" using owner_invD by blast
  show "problems_of s c k \<noteq> Some p"
  proof
    assume "problems_of s c k = Some p"
    with o have "p_owner p = c" using owner_invD by blast
    with pa p show False by simp
  qed
  assume "problems_of s c k = None"
  then show "release_reward s c k sid = Inl MissingResource \<or>
              release_reward s c k sid = Inl TableKeyMissing"
    by (rule release_reward_not_found)
qed

text \<open>
  At a concrete state: after A has created problem 1, a release by B does not meet the
  ownership check; B has no registry.
\<close>

lemma problems_of_created:
  "problems_of created_state 10 1 = Some (new_problem 1 10 Qm111 lat_ex lng_ex 10000000)"
  "problems_of created_state 11 1 = None"
  by (simp_all add: problems_of_def example_defs)

lemma release_created_by_B: "release_reward created_state 11 1 1 = Inl MissingResource"
  by (simp add: example_defs eval_defs)

theorem owner_is_registry_address_witness:
  "owner_inv fresh_state \<and> step fresh_state created_state \<and> owner_inv created_state
   \<and> create_problem fresh_state 10 Qm111 lat_ex lng_ex 10000000 = Inr created_state
   \<and> p_owner (new_problem 1 10 Qm111 lat_ex lng_ex 10000000) = 10
   \<and> reachable created_state
   \<and> problems_of created_state 10 1 = Some (new_problem 1 10 Qm111 lat_ex lng_ex 10000000)
   \<and> (11 :: address) \<noteq> 10
   \<and> problems_of created_state 11 1 = None
   \<and> release_reward created_state 11 1 1 \<noteq> Inl (Abort 5)
   \<and> release_reward created_state 11 1 1 = Inl MissingResource"
proof -
  note t = owner_is_registry_address [where s = created_state and c = 11 and k = 1
      and sid = 1 and a = 10 and p = "new_problem 1 10 Qm111 lat_ex lng_ex 10000000"]
  note u = owner_is_registry_address [where s = fresh_state and s' = created_state]
  have o: "owner_inv fresh_state" by (simp add: owner_inv_def problems_of_def fresh_state_def)
  have s: "step fresh_state created_state" using create_fresh by (rule step_create)
  have "owner_inv created_state" using u o s by blast
  moreover have "release_reward created_state 11 1 1 \<noteq> Inl (Abort 5)"
    using t reachable_created by blast
  moreover have "p_owner (new_problem 1 10 Qm111 lat_ex lng_ex 10000000) = 10"
    using t reachable_created problems_of_created(1) by simp
  ultimately show ?thesis
    using o s create_fresh reachable_created problems_of_created release_created_by_B
    by simp
qed

section \<open>Solution ids\<close>

lemma sequential_ids_inj:
  assumes "sequential_ids sols" "i < length sols" "j < length sols"
    "s_id (sols ! i) = s_id (sols ! j)"
  shows "i = j"
proof -
  have "i + 1 = unat (s_id (sols ! i))"
    using sequential_idsD [OF assms(1,2)] by (rule sym)
  also have "\<dots> = unat (s_id (sols ! j))"
    by (rule arg_cong [OF assms(4)])
  also have "\<dots> = j + 1"
    by (rule sequential_idsD [OF assms(1,3)])
  finally show ?thesis by (rule add_right_imp_eq)
qed

lemma sequential_ids_distinct:
  assumes "sequential_ids sols"
  shows "distinct (map s_id sols)"
  unfolding distinct_conv_nth
  using sequential_ids_inj [OF assms] by auto

lemma distinct_filter_le_1:
  "distinct (map f xs) \<Longrightarrow> length (filter (\<lambda>x. f x = v) xs) \<le> 1"
  by (induction xs) (auto simp: filter_empty_conv image_iff)

text \<open>
  Claim C10. In every problem of a reachable state the solution at position \<open>i\<close> has
  the id \<open>i + 1\<close>, and every transaction keeps it so. Such ids are distinct, so at most
  one solution matches a given id and a scan for an id has at most one match.
\<close>

theorem solution_ids_sequential:
  "(solutions_inv s \<and> step s s' \<longrightarrow> solutions_inv s')
   \<and> (reachable s \<longrightarrow> solutions_inv s)
   \<and> (reachable s \<and> problems_of s a k = Some p \<and> i < length (p_solutions p) \<longrightarrow>
        unat (s_id (p_solutions p ! i)) = i + 1)
   \<and> (sequential_ids sols \<longrightarrow>
        distinct (map s_id sols) \<and> length (filter (\<lambda>x. s_id x = sid) sols) \<le> 1 \<and>
        (i < length sols \<and> j < length sols \<and> s_id (sols ! i) = sid \<and> s_id (sols ! j) = sid
           \<longrightarrow> i = j))"
proof (intro conjI impI)
  assume "solutions_inv s \<and> step s s'"
  then show "solutions_inv s'" using solutions_inv_step by blast
next
  assume "reachable s"
  then show "solutions_inv s" by (rule reachable_solutions_inv)
next
  assume a: "reachable s \<and> problems_of s a k = Some p \<and> i < length (p_solutions p)"
  then have "solutions_inv s" using reachable_solutions_inv by blast
  with a have "sequential_ids (p_solutions p)" using solutions_invD by blast
  with a show "unat (s_id (p_solutions p ! i)) = i + 1" using sequential_idsD by blast
next
  assume s: "sequential_ids sols"
  then show d: "distinct (map s_id sols)" by (rule sequential_ids_distinct)
  then show "length (filter (\<lambda>x. s_id x = sid) sols) \<le> 1" by (rule distinct_filter_le_1)
  assume "i < length sols \<and> j < length sols \<and> s_id (sols ! i) = sid \<and> s_id (sols ! j) = sid"
  with s show "i = j" using sequential_ids_inj [of sols i j] by simp
qed

text \<open>At a concrete state: the two solutions A has added carry the ids 1 and 2.\<close>

lemma solutions_inv_self_solved: "solutions_inv self_solved_state"
  by (auto simp: solutions_inv_def sequential_ids_def problems_of_def example_defs
      new_problem_def split: if_splits option.splits)

theorem solution_ids_sequential_witness:
  "solutions_inv self_solved_state \<and> step self_solved_state twice_solved_state
   \<and> solutions_inv twice_solved_state
   \<and> reachable twice_solved_state
   \<and> problems_of twice_solved_state 10 1 = Some twice_solved_problem
   \<and> (1 :: nat) < length (p_solutions twice_solved_problem)
   \<and> unat (s_id (p_solutions twice_solved_problem ! 1)) = 1 + 1
   \<and> sequential_ids (p_solutions twice_solved_problem)
   \<and> distinct (map s_id (p_solutions twice_solved_problem))
   \<and> length (filter (\<lambda>x. s_id x = 2) (p_solutions twice_solved_problem)) \<le> 1"
proof -
  note t = solution_ids_sequential [where s = self_solved_state and s' = twice_solved_state]
  note u = solution_ids_sequential [where s = twice_solved_state and a = 10 and k = 1
      and p = twice_solved_problem and i = 1 and sols = "p_solutions twice_solved_problem"
      and sid = 2]
  have s: "step self_solved_state twice_solved_state" using add_self_solved by (rule step_add)
  have l: "(1 :: nat) < length (p_solutions twice_solved_problem)"
    by (simp add: twice_solved_problem_def)
  have i: "solutions_inv twice_solved_state" using t solutions_inv_self_solved s by blast
  then have q: "sequential_ids (p_solutions twice_solved_problem)"
    using problems_of_twice_solved solutions_invD by blast
  have "unat (s_id (p_solutions twice_solved_problem ! 1)) = 1 + 1"
    using u reachable_twice_solved problems_of_twice_solved l by blast
  moreover have "distinct (map s_id (p_solutions twice_solved_problem))
      \<and> length (filter (\<lambda>x. s_id x = 2) (p_solutions twice_solved_problem)) \<le> 1"
    using u q by blast
  ultimately show ?thesis
    using solutions_inv_self_solved s i reachable_twice_solved problems_of_twice_solved l q
    by blast
qed

section \<open>Problem ids\<close>

lemma step_next_id_mono:
  assumes "step s s'"
  shows "unat (next_id s a) \<le> unat (next_id s' a)"
  using step_registry [OF assms, of a] unat_plus_one [of "next_id s a"] by auto

lemma create_problems_keeps:
  "create_problems s a xs = Inr (ids, s') \<Longrightarrow> problems_of s a k = Some p \<Longrightarrow>
   problems_of s' a k = Some p"
proof (induction xs arbitrary: s ids)
  case Nil
  then show ?case by simp
next
  case (Cons x xs)
  obtain cid lat lng b where x: "x = (cid, lat, lng, b)" by (cases x) auto
  from Cons.prems(1) x obtain s1 ids1 where
    c: "create_problem s a cid lat lng b = Inr s1" and
    r: "create_problems s1 a xs = Inr (ids1, s')"
    by (auto split: sum.splits)
  have "k \<noteq> next_id s a" using create_problem_Inr(2) [OF c] Cons.prems(2) by auto
  then have "problems_of s1 a k = Some p"
    using create_problem_Inr(3) [OF c] Cons.prems(2) by simp
  with r show ?case by (rule Cons.IH)
qed

lemma create_problems_ids:
  "create_problems s a xs = Inr (ids, s') \<Longrightarrow>
   map unat ids = [unat (next_id s a) ..< unat (next_id s a) + length xs] \<and>
   (\<forall>i \<in> set ids. \<exists>p. problems_of s' a i = Some p \<and> p_id p = i)"
proof (induction xs arbitrary: s ids)
  case Nil
  then show ?case by simp
next
  case (Cons x xs)
  obtain cid lat lng b where x: "x = (cid, lat, lng, b)" by (cases x) auto
  from Cons.prems x obtain s1 ids1 where
    c: "create_problem s a cid lat lng b = Inr s1" and
    r: "create_problems s1 a xs = Inr (ids1, s')" and
    i: "ids = next_id s a # ids1"
    by (auto split: sum.splits)
  have n: "unat (next_id s1 a) = Suc (unat (next_id s a))"
    using create_problem_Inr(1,4) [OF c] unat_plus_one [of "next_id s a"] by simp
  have ih: "map unat ids1 = [unat (next_id s1 a) ..< unat (next_id s1 a) + length xs]"
    "\<forall>i \<in> set ids1. \<exists>p. problems_of s' a i = Some p \<and> p_id p = i"
    using Cons.IH [OF r] by simp_all
  have "problems_of s1 a (next_id s a) = Some (new_problem (next_id s a) a cid lat lng b)"
    using create_problem_Inr(3) [OF c] by simp
  then have "problems_of s' a (next_id s a) = Some (new_problem (next_id s a) a cid lat lng b)"
    using create_problems_keeps [OF r] by blast
  then have new: "\<exists>p. problems_of s' a (next_id s a) = Some p \<and> p_id p = next_id s a"
    by (simp add: new_problem_def)
  have "map unat ids = unat (next_id s a) # [Suc (unat (next_id s a)) ..< Suc (unat (next_id s a)) + length xs]"
    using i ih(1) n by simp
  also have "\<dots> = [unat (next_id s a) ..< unat (next_id s a) + length (x # xs)]"
    using upt_conv_Cons [of "unat (next_id s a)" "unat (next_id s a) + length (x # xs)"]
    by simp
  finally show ?case using i ih(2) new by simp
qed

text \<open>
  Below the bound of the counter the calls do return: one call where the counter is below
  \<open>2^64 - 1\<close>, and a run of calls where the counter plus their number stays within it.
\<close>

lemma create_problem_returns:
  assumes "counter_inv s" "unat (next_id s a) < 2 ^ 64 - 1"
  shows "create_problem s a cid lat lng b =
     Inr (s\<lparr>registries := (registries s)(a \<mapsto>
            \<lparr>next_problem_id = next_id s a + 1,
             problems = (problems_of s a)(next_id s a \<mapsto>
                new_problem (next_id s a) a cid lat lng b)\<rparr>)\<rparr>)"
  using assms counter_inv_free [of s a] by (simp add: create_problem_eq)

lemma create_problems_returns:
  "counter_inv s \<Longrightarrow> unat (next_id s a) + length xs \<le> 2 ^ 64 - 1 \<Longrightarrow>
   \<exists>ids t. create_problems s a xs = Inr (ids, t)"
proof (induction xs arbitrary: s)
  case Nil
  show ?case by simp
next
  case (Cons x xs)
  obtain cid lat lng b where x: "x = (cid, lat, lng, b)" by (cases x) auto
  have lt: "unat (next_id s a) < 2 ^ 64 - 1" using Cons.prems(2) by simp
  obtain s1 where c: "create_problem s a cid lat lng b = Inr s1"
    using create_problem_returns [OF Cons.prems(1) lt] by blast
  have inv: "counter_inv s1"
    using Cons.prems(1) c by (blast intro: counter_inv_step step_create)
  have "unat (next_id s1 a) = unat (next_id s a) + 1"
    using create_problem_Inr(4) [OF c] unat_plus_one [OF lt] by simp
  then have "unat (next_id s1 a) + length xs \<le> 2 ^ 64 - 1" using Cons.prems(2) by simp
  with inv obtain ids1 t where "create_problems s1 a xs = Inr (ids1, t)"
    using Cons.IH by blast
  then show ?case using c x by simp
qed

text \<open>
  Claim C5. In every reachable state the counter of a registry is above every key of its
  table, and the keys are exactly the ids from 1 up to the counter: no gaps. Every
  transaction keeps both, and never lowers a counter. A successful \<open>create_problem\<close>
  stores the new problem under the old counter, a key that was free, and raises the
  counter by exactly one. So repeated calls by one caller allocate consecutive ids, and
  for a caller without a registry they are 1, 2, 3 and so on. The calls do succeed: one
  call wherever the counter is below \<open>2^64 - 1\<close>, a run of calls wherever the counter
  plus their number does not exceed \<open>2^64 - 1\<close>, and so, in a reachable state, every run
  of up to \<open>2^64 - 2\<close> calls of a caller without a registry returns the ids 1, 2, 3 and
  so on.
\<close>

theorem problem_ids_increase:
  "(reachable s \<longrightarrow> counter_inv s \<and> dense_ids s)
   \<and> (counter_inv s \<and> step s s' \<longrightarrow> counter_inv s')
   \<and> (dense_ids s \<and> step s s' \<longrightarrow> dense_ids s')
   \<and> (step s s' \<longrightarrow> unat (next_id s a) \<le> unat (next_id s' a))
   \<and> (create_problem s a cid lat lng b = Inr s' \<longrightarrow>
        problems_of s a (next_id s a) = None \<and>
        problems_of s' a =
          (problems_of s a)(next_id s a \<mapsto> new_problem (next_id s a) a cid lat lng b) \<and>
        unat (next_id s' a) = unat (next_id s a) + 1)
   \<and> (create_problems s a xs = Inr (ids, s'') \<longrightarrow>
        map unat ids = [unat (next_id s a) ..< unat (next_id s a) + length xs] \<and>
        (\<forall>i \<in> set ids. \<exists>p. problems_of s'' a i = Some p \<and> p_id p = i))
   \<and> (registries s a = None \<and> create_problems s a xs = Inr (ids, s'') \<longrightarrow>
        map unat ids = [1 ..< 1 + length xs])
   \<and> (counter_inv s \<and> unat (next_id s a) < 2 ^ 64 - 1 \<longrightarrow>
        create_problem s a cid lat lng b =
          Inr (s\<lparr>registries := (registries s)(a \<mapsto>
                 \<lparr>next_problem_id = next_id s a + 1,
                  problems = (problems_of s a)(next_id s a \<mapsto>
                     new_problem (next_id s a) a cid lat lng b)\<rparr>)\<rparr>))
   \<and> (counter_inv s \<and> unat (next_id s a) + length xs \<le> 2 ^ 64 - 1 \<longrightarrow>
        (\<exists>js t. create_problems s a xs = Inr (js, t) \<and>
           map unat js = [unat (next_id s a) ..< unat (next_id s a) + length xs] \<and>
           (\<forall>i \<in> set js. \<exists>p. problems_of t a i = Some p \<and> p_id p = i)))
   \<and> (reachable s \<and> registries s a = None \<and> length xs \<le> 2 ^ 64 - 2 \<longrightarrow>
        (\<exists>js t. create_problems s a xs = Inr (js, t) \<and>
           map unat js = [1 ..< 1 + length xs]))"
proof (intro conjI impI)
  assume "reachable s"
  then show "counter_inv s" "dense_ids s"
    by (rule reachable_counter_inv, rule reachable_dense_ids)
next
  assume "counter_inv s \<and> step s s'"
  then show "counter_inv s'" using counter_inv_step by blast
next
  assume "dense_ids s \<and> step s s'"
  then show "dense_ids s'" using dense_ids_step by blast
next
  assume "step s s'"
  then show "unat (next_id s a) \<le> unat (next_id s' a)" by (rule step_next_id_mono)
next
  assume c: "create_problem s a cid lat lng b = Inr s'"
  then show "problems_of s a (next_id s a) = None"
    and "problems_of s' a =
          (problems_of s a)(next_id s a \<mapsto> new_problem (next_id s a) a cid lat lng b)"
    by (rule create_problem_Inr(2), rule create_problem_Inr(3))
  show "unat (next_id s' a) = unat (next_id s a) + 1"
    using create_problem_Inr(1,4) [OF c] unat_plus_one [of "next_id s a"] by simp
next
  assume c: "create_problems s a xs = Inr (ids, s'')"
  from create_problems_ids [OF c]
  show "map unat ids = [unat (next_id s a) ..< unat (next_id s a) + length xs]"
    and "\<forall>i \<in> set ids. \<exists>p. problems_of s'' a i = Some p \<and> p_id p = i"
    by simp_all
next
  assume c: "registries s a = None \<and> create_problems s a xs = Inr (ids, s'')"
  then have "next_id s a = 1" by (simp add: next_id_def)
  with c create_problems_ids [of s a xs ids s'']
  show "map unat ids = [1 ..< 1 + length xs]" by simp
next
  assume "counter_inv s \<and> unat (next_id s a) < 2 ^ 64 - 1"
  then show "create_problem s a cid lat lng b =
          Inr (s\<lparr>registries := (registries s)(a \<mapsto>
                 \<lparr>next_problem_id = next_id s a + 1,
                  problems = (problems_of s a)(next_id s a \<mapsto>
                     new_problem (next_id s a) a cid lat lng b)\<rparr>)\<rparr>)"
    using create_problem_returns by blast
next
  assume "counter_inv s \<and> unat (next_id s a) + length xs \<le> 2 ^ 64 - 1"
  then obtain js t where r: "create_problems s a xs = Inr (js, t)"
    using create_problems_returns by blast
  from create_problems_ids [OF r] r
  show "\<exists>js t. create_problems s a xs = Inr (js, t) \<and>
           map unat js = [unat (next_id s a) ..< unat (next_id s a) + length xs] \<and>
           (\<forall>i \<in> set js. \<exists>p. problems_of t a i = Some p \<and> p_id p = i)"
    by blast
next
  assume h: "reachable s \<and> registries s a = None \<and> length xs \<le> 2 ^ 64 - 2"
  then have n: "next_id s a = 1" by (simp add: next_id_def)
  have "counter_inv s" using h reachable_counter_inv by blast
  moreover have "unat (next_id s a) + length xs \<le> 2 ^ 64 - 1" using h n by simp
  ultimately obtain js t where r: "create_problems s a xs = Inr (js, t)"
    using create_problems_returns by blast
  from create_problems_ids [OF r] n have "map unat js = [1 ..< 1 + length xs]" by simp
  with r show "\<exists>js t. create_problems s a xs = Inr (js, t) \<and>
           map unat js = [1 ..< 1 + length xs]"
    by blast
qed

text \<open>At concrete states: the first two problems of A get the ids 1 and 2.\<close>

lemma create_problems_fresh:
  "create_problems fresh_state 10 [(Qm111, lat_ex, lng_ex, 10000000), (Qm222, lat_ex, lng_ex, 0)]
     = Inr ([1, 2], created_twice_state)"
  by (simp add: create_fresh create_created) (simp add: next_id_def example_defs)

theorem problem_ids_increase_witness:
  "reachable created_twice_state \<and> counter_inv created_twice_state
   \<and> dense_ids created_twice_state
   \<and> counter_inv created_state \<and> dense_ids created_state
   \<and> step created_state created_twice_state
   \<and> unat (next_id created_state 10) = 2 \<and> unat (next_id created_twice_state 10) = 3
   \<and> create_problem created_state 10 Qm222 lat_ex lng_ex 0 = Inr created_twice_state
   \<and> problems_of created_state 10 2 = None
   \<and> problems_of created_twice_state 10 2 = Some (new_problem 2 10 Qm222 lat_ex lng_ex 0)
   \<and> registries fresh_state 10 = None
   \<and> create_problems fresh_state 10
        [(Qm111, lat_ex, lng_ex, 10000000), (Qm222, lat_ex, lng_ex, 0)]
        = Inr ([1, 2], created_twice_state)
   \<and> map unat [1, 2 :: u64] = [1 ..< 1 + 2]
   \<and> p_id (new_problem 2 10 Qm222 lat_ex lng_ex 0) = 2
   \<and> unat (next_id created_state 10) < 2 ^ 64 - 1
   \<and> (\<exists>t. create_problem created_state 10 Qm222 lat_ex lng_ex 0 = Inr t)
   \<and> reachable fresh_state \<and> counter_inv fresh_state
   \<and> unat (next_id fresh_state 10)
        + length [(Qm111, lat_ex, lng_ex, 10000000 :: u64), (Qm222, lat_ex, lng_ex, 0)]
        \<le> 2 ^ 64 - 1
   \<and> length [(Qm111, lat_ex, lng_ex, 10000000 :: u64), (Qm222, lat_ex, lng_ex, 0)] \<le> 2 ^ 64 - 2
   \<and> (\<exists>js t. create_problems fresh_state 10
          [(Qm111, lat_ex, lng_ex, 10000000), (Qm222, lat_ex, lng_ex, 0)] = Inr (js, t) \<and>
          map unat js = [1 ..< 1 + length
            [(Qm111, lat_ex, lng_ex, 10000000 :: u64), (Qm222, lat_ex, lng_ex, 0)]])"
proof -
  have cf: "counter_inv fresh_state"
    by (simp add: counter_inv_def problems_of_def fresh_state_def)
  have nf: "unat (next_id fresh_state 10)
        + length [(Qm111, lat_ex, lng_ex, 10000000 :: u64), (Qm222, lat_ex, lng_ex, 0)]
        \<le> 2 ^ 64 - 1"
    "length [(Qm111, lat_ex, lng_ex, 10000000 :: u64), (Qm222, lat_ex, lng_ex, 0)] \<le> 2 ^ 64 - 2"
    by (simp_all add: next_id_def fresh_state_def)
  have nc: "unat (next_id created_state 10) < 2 ^ 64 - 1"
    by (simp add: next_id_def created_state_def created_registry_def)
  have rf: "registries fresh_state 10 = None" by (simp add: fresh_state_def)
  have ret1: "\<exists>t. create_problem created_state 10 Qm222 lat_ex lng_ex 0 = Inr t"
    using problem_ids_increase [where s = created_state and a = 10 and cid = Qm222
        and lat = lat_ex and lng = lng_ex and b = 0] counter_inv_created nc
    by blast
  have ret2: "\<exists>js t. create_problems fresh_state 10
          [(Qm111, lat_ex, lng_ex, 10000000), (Qm222, lat_ex, lng_ex, 0)] = Inr (js, t) \<and>
          map unat js = [1 ..< 1 + length
            [(Qm111, lat_ex, lng_ex, 10000000 :: u64), (Qm222, lat_ex, lng_ex, 0)]]"
    using problem_ids_increase [where s = fresh_state and a = 10
        and xs = "[(Qm111, lat_ex, lng_ex, 10000000), (Qm222, lat_ex, lng_ex, 0)]"]
      reachable_fresh nf(2) rf
    by blast
  note more = cf nf nc ret1 ret2 reachable_fresh
  note t = problem_ids_increase [where s = created_state and s' = created_twice_state
      and a = 10 and cid = Qm222 and lat = lat_ex and lng = lng_ex and b = 0]
  note u = problem_ids_increase [where s = fresh_state and a = 10
      and xs = "[(Qm111, lat_ex, lng_ex, 10000000), (Qm222, lat_ex, lng_ex, 0)]"
      and ids = "[1, 2]" and s'' = created_twice_state]
  note v = problem_ids_increase [where s = created_twice_state]
  have s: "step created_state created_twice_state" using create_created by (rule step_create)
  have n: "next_id created_state 10 = 2" "next_id created_twice_state 10 = 3"
    by (simp_all add: next_id_def example_defs)
  have f: "registries fresh_state 10 = None" by (simp add: fresh_state_def)
  have "counter_inv created_twice_state \<and> dense_ids created_twice_state"
    using v reachable_created_twice by blast
  moreover have "problems_of created_state 10 2 = None
      \<and> problems_of created_twice_state 10 2 = Some (new_problem 2 10 Qm222 lat_ex lng_ex 0)"
    using t create_created n by simp
  moreover have "map unat [1, 2 :: u64] =
      [1 ..< 1 + length [(Qm111, lat_ex, lng_ex, 10000000 :: u64), (Qm222, lat_ex, lng_ex, 0)]]"
    using u f create_problems_fresh by blast
  ultimately have "reachable created_twice_state \<and> counter_inv created_twice_state
   \<and> dense_ids created_twice_state
   \<and> counter_inv created_state \<and> dense_ids created_state
   \<and> step created_state created_twice_state
   \<and> unat (next_id created_state 10) = 2 \<and> unat (next_id created_twice_state 10) = 3
   \<and> create_problem created_state 10 Qm222 lat_ex lng_ex 0 = Inr created_twice_state
   \<and> problems_of created_state 10 2 = None
   \<and> problems_of created_twice_state 10 2 = Some (new_problem 2 10 Qm222 lat_ex lng_ex 0)
   \<and> registries fresh_state 10 = None
   \<and> create_problems fresh_state 10
        [(Qm111, lat_ex, lng_ex, 10000000), (Qm222, lat_ex, lng_ex, 0)]
        = Inr ([1, 2], created_twice_state)
   \<and> map unat [1, 2 :: u64] = [1 ..< 1 + 2]
   \<and> p_id (new_problem 2 10 Qm222 lat_ex lng_ex 0) = 2"
    using reachable_created_twice counter_inv_created dense_ids_created s n create_created f
      create_problems_fresh by (simp add: new_problem_def)
  then show ?thesis using more by blast
qed

section \<open>The lookup of \<open>release_reward\<close>\<close>

text \<open>
  In a reachable state every solution stored under an address credits that address, so
  the loop of \<open>release_reward\<close> can only find the caller itself, which the check after
  the loop takes for "not found": no release ever succeeds.
\<close>

lemma release_reward_never_succeeds:
  assumes "reachable s"
  shows "release_reward s a k sid \<noteq> Inr s'"
proof
  assume "release_reward s a k sid = Inr s'"
  then show False
  proof (rule release_reward_Inr)
    fix reg p bal
    assume r: "registries s a = Some reg" "problems reg k = Some p"
      and f: "release_scan (p_solutions p) sid 0 a \<noteq> a"
    from f obtain j where j: "first_match (p_solutions p) sid j"
      "release_scan (p_solutions p) sid 0 a = s_solver (p_solutions p ! j)"
      by (rule release_scan_found)
    have "problems_of s a k = Some p" using r by (simp add: problems_of_Some)
    moreover have "p_solutions p ! j \<in> set (p_solutions p)"
      using j(1) by (simp add: first_match_def)
    ultimately have "s_solver (p_solutions p ! j) = a"
      using reachable_solver_inv [OF assms] solver_invD by blast
    with f j(2) show False by simp
  qed
qed

text \<open>
  Claim C1, at the input where the code departs from it. A creates problem 1 and adds a
  solution to it (the caller of \<open>add_solution\<close> is always the solver it credits). The
  problem is open, A is its owner, solution 1 exists and A's balance covers the bounty,
  and still \<open>release_reward\<close> aborts with code 7, "solution not found".
\<close>

theorem release_own_solution_aborts:
  "reachable self_solved_state
   \<and> problems_of self_solved_state 10 1 = Some self_solved_problem
   \<and> p_owner self_solved_problem = 10 \<and> p_open self_solved_problem
   \<and> p_bounty_octas self_solved_problem = 10000000
   \<and> map s_id (p_solutions self_solved_problem) = [1]
   \<and> coin_store self_solved_state 10 = Some 25000000
   \<and> release_reward self_solved_state 10 1 1 = Inl (Abort 7)"
  using reachable_self_solved
  by (simp add: example_defs eval_defs problems_of_def)

section \<open>The example with three parties\<close>

text \<open>
  \<open>add_solution\<close> and \<open>vote_solution\<close> write to the registry of their caller only: no
  call by another address changes the problems of A.
\<close>

lemma add_solution_other_registry:
  assumes "add_solution s b k solver_addr cid = Inr s'" "b \<noteq> a"
  shows "registries s' a = registries s a"
  using assms by (elim add_solution_Inr) (simp add: write_problem_def)

lemma vote_solution_other_registry:
  assumes "vote_solution s b k sid = Inr s'" "b \<noteq> a"
  shows "registries s' a = registries s a"
  using assms by (elim vote_solution_Inr) (simp add: write_problem_def)

text \<open>
  Claim C2, at the input where the code departs from it. After A has created problem 1,
  \<open>add_solution\<close> by B looks for a registry under B's own address and aborts, since B
  has none; so does \<open>vote_solution\<close> by C, also once A itself has added a solution.
\<close>

theorem multi_party_example_aborts:
  "create_problem fresh_state 10 Qm111 lat_ex lng_ex 10000000 = Inr created_state
   \<and> problems_of created_state 10 1 = Some (new_problem 1 10 Qm111 lat_ex lng_ex 10000000)
   \<and> add_solution created_state 11 1 11 Qm222 = Inl MissingResource
   \<and> vote_solution created_state 12 1 1 = Inl MissingResource
   \<and> vote_solution self_solved_state 12 1 1 = Inl MissingResource"
  using create_fresh
  by (simp add: example_defs eval_defs problems_of_def)

section \<open>\<open>create_problem\<close> and the limit of the counter\<close>

text \<open>
  Claim C8 as stated fails: after \<open>2^64 - 2\<close> problems the counter of A is \<open>2^64 - 1\<close>,
  and the next \<open>create_problem\<close> aborts on the checked increment of the counter.
\<close>

theorem create_problem_overflows:
  "reachable full_counter_state
   \<and> unat (next_id full_counter_state 10) = 18446744073709551615
   \<and> create_problem full_counter_state 10 Qm111 lat_ex lng_ex 10000000 = Inl ArithmeticError"
  using reachable_full_counter next_id_full_counter create_full_counter by simp

text \<open>
  Claim C8, amended. Where the counter of the caller's registry is below \<open>2^64 - 1\<close> (a
  caller without a registry counts as 1) and the counter is above every key,
  \<open>create_problem\<close> succeeds; the new state differs from the old one only in the
  caller's registry, which now has the counter raised by one and the new problem under
  the old counter, and all balances are as before. In a reachable state the insertion
  never meets a key that is present, and the only abort is the arithmetic one of the
  increment, at a counter of \<open>2^64 - 1\<close>.
\<close>

theorem create_problem_succeeds:
  "(counter_inv s \<and> unat (next_id s a) < 2 ^ 64 - 1 \<longrightarrow>
      create_problem s a cid lat lng b =
        Inr (s\<lparr>registries := (registries s)(a \<mapsto>
               \<lparr>next_problem_id = next_id s a + 1,
                problems = (problems_of s a)(next_id s a \<mapsto>
                   new_problem (next_id s a) a cid lat lng b)\<rparr>)\<rparr>))
   \<and> (create_problem s a cid lat lng b = Inr s' \<longrightarrow> coin_store s' = coin_store s)
   \<and> (reachable s \<longrightarrow>
        counter_inv s \<and>
        create_problem s a cid lat lng b \<noteq> Inl TableKeyExists \<and>
        (unat (next_id s a) < 2 ^ 64 - 1 \<longrightarrow> (\<exists>s'. create_problem s a cid lat lng b = Inr s')) \<and>
        (create_problem s a cid lat lng b = Inl e \<longrightarrow>
           e = ArithmeticError \<and> unat (next_id s a) = 2 ^ 64 - 1))"
proof (intro conjI impI)
  assume "counter_inv s \<and> unat (next_id s a) < 2 ^ 64 - 1"
  then show "create_problem s a cid lat lng b =
        Inr (s\<lparr>registries := (registries s)(a \<mapsto>
               \<lparr>next_problem_id = next_id s a + 1,
                problems = (problems_of s a)(next_id s a \<mapsto>
                   new_problem (next_id s a) a cid lat lng b)\<rparr>)\<rparr>)"
    using counter_inv_free [of s a] by (simp add: create_problem_eq)
next
  assume "create_problem s a cid lat lng b = Inr s'"
  then show "coin_store s' = coin_store s" by (rule create_problem_Inr(5))
next
  assume "reachable s"
  then show c: "counter_inv s" by (rule reachable_counter_inv)
  then have f: "problems_of s a (next_id s a) = None"
    by (rule counter_inv_free)
  then show "create_problem s a cid lat lng b \<noteq> Inl TableKeyExists"
    by (simp add: create_problem_eq)
  {
    assume "unat (next_id s a) < 2 ^ 64 - 1"
    then show "\<exists>s'. create_problem s a cid lat lng b = Inr s'"
      using f by (simp add: create_problem_eq)
  }
  assume e: "create_problem s a cid lat lng b = Inl e"
  have "unat (next_id s a) < 2 ^ 64" using unsigned_less [of "next_id s a", where 'a = nat] by simp
  with e f show "e = ArithmeticError" "unat (next_id s a) = 2 ^ 64 - 1"
    by (auto simp: create_problem_eq split: if_splits)
qed

theorem create_problem_succeeds_witness:
  "counter_inv created_state \<and> unat (next_id created_state 10) < 2 ^ 64 - 1
   \<and> reachable created_state
   \<and> create_problem created_state 10 Qm222 lat_ex lng_ex 0 = Inr created_twice_state
   \<and> created_twice_state =
       created_state\<lparr>registries := (registries created_state)(10 \<mapsto>
          \<lparr>next_problem_id = 2 + 1,
           problems = (problems_of created_state 10)(2 \<mapsto>
              new_problem 2 10 Qm222 lat_ex lng_ex 0)\<rparr>)\<rparr>
   \<and> coin_store created_twice_state = coin_store created_state
   \<and> create_problem created_state 10 Qm222 lat_ex lng_ex 0 \<noteq> Inl TableKeyExists
   \<and> reachable full_counter_state
   \<and> create_problem full_counter_state 10 Qm111 lat_ex lng_ex 10000000 = Inl ArithmeticError
   \<and> unat (next_id full_counter_state 10) = 2 ^ 64 - 1"
proof -
  have "unat (next_id full_counter_state 10) = 2 ^ 64 - 1"
    using create_problem_succeeds [where s = full_counter_state and a = 10 and cid = Qm111
        and lat = lat_ex and lng = lng_ex and b = 10000000 and e = ArithmeticError]
      reachable_full_counter create_full_counter by blast
  note full = this reachable_full_counter create_full_counter
  note t = create_problem_succeeds [where s = created_state and a = 10 and cid = Qm222
      and lat = lat_ex and lng = lng_ex and b = 0 and s' = created_twice_state]
  have n: "next_id created_state 10 = 2" by (simp add: next_id_def created_state_def created_registry_def)
  then have l: "unat (next_id created_state 10) < 2 ^ 64 - 1" by simp
  have "create_problem created_state 10 Qm222 lat_ex lng_ex 0 =
      Inr (created_state\<lparr>registries := (registries created_state)(10 \<mapsto>
          \<lparr>next_problem_id = next_id created_state 10 + 1,
           problems = (problems_of created_state 10)(next_id created_state 10 \<mapsto>
              new_problem (next_id created_state 10) 10 Qm222 lat_ex lng_ex 0)\<rparr>)\<rparr>)"
    using t counter_inv_created l by blast
  then have "created_twice_state =
       created_state\<lparr>registries := (registries created_state)(10 \<mapsto>
          \<lparr>next_problem_id = 2 + 1,
           problems = (problems_of created_state 10)(2 \<mapsto>
              new_problem 2 10 Qm222 lat_ex lng_ex 0)\<rparr>)\<rparr>"
    by (simp only: create_created n sum.inject)
  moreover have "coin_store created_twice_state = coin_store created_state"
    using t create_created by blast
  moreover have "create_problem created_state 10 Qm222 lat_ex lng_ex 0 \<noteq> Inl TableKeyExists"
    using t reachable_created by blast
  ultimately show ?thesis
    using counter_inv_created l reachable_created create_created full by blast
qed

section \<open>\<open>add_solution\<close>\<close>

text \<open>
  Claim C7 as stated fails: with \<open>2^64 - 1\<close> solutions on problem 1, which exists and is
  open, \<open>add_solution\<close> by its caller aborts on the checked computation of the new id.
\<close>

theorem add_solution_overflows:
  "reachable full_solutions_state
   \<and> problems_of full_solutions_state 10 1 \<noteq> None
   \<and> \<not> closed_at full_solutions_state 10 1
   \<and> length (p_solutions (the (problems_of full_solutions_state 10 1))) = 18446744073709551615
   \<and> add_solution full_solutions_state 10 1 10 Qm222 = Inl ArithmeticError"
proof -
  have "length (p_solutions (the (problems_of full_solutions_state 10 1))) = 18446744073709551615"
    by (simp add: problems_of_def full_solutions_state_def solutions_state_def)
  then show ?thesis
    using reachable_full_solutions open_full_solutions add_full_solutions by simp
qed

text \<open>
  Claim C7, amended. Where the problem exists in the caller's registry, is open, the
  solver is the caller and the problem has fewer than \<open>2^64 - 1\<close> solutions,
  \<open>add_solution\<close> succeeds and the new state differs from the old one only in the
  solutions of that problem: the old ones, untouched, followed by one new solution with
  the id \<open>count + 1\<close> and no votes. The call fails on a missing registry, a missing
  problem, a closed problem (code 1) and a solver other than the caller (code 2), and
  after any failure the state is as it was.
\<close>

theorem add_solution_effect:
  "(registries s a = Some reg \<and> problems reg k = Some p \<and> p_open p \<and> solver_addr = a \<and>
    length (p_solutions p) < 2 ^ 64 - 1 \<longrightarrow>
      add_solution s a k solver_addr cid =
        Inr (s\<lparr>registries := (registries s)(a \<mapsto> reg\<lparr>problems := (problems reg)(k \<mapsto>
               p\<lparr>p_solutions := p_solutions p @
                    [\<lparr>s_id = of_nat (length (p_solutions p)) + 1, s_solver = a, s_cid = cid,
                      s_votes = 0\<rparr>]\<rparr>)\<rparr>)\<rparr>) \<and>
      unat (of_nat (length (p_solutions p)) + 1 :: u64) = length (p_solutions p) + 1)
   \<and> (registries s a = None \<longrightarrow> add_solution s a k solver_addr cid = Inl MissingResource)
   \<and> (registries s a = Some reg \<and> problems reg k = None \<longrightarrow>
        add_solution s a k solver_addr cid = Inl TableKeyMissing)
   \<and> (registries s a = Some reg \<and> problems reg k = Some p \<and> \<not> p_open p \<longrightarrow>
        add_solution s a k solver_addr cid = Inl (Abort 1))
   \<and> (registries s a = Some reg \<and> problems reg k = Some p \<and> p_open p \<and> solver_addr \<noteq> a \<longrightarrow>
        add_solution s a k solver_addr cid = Inl (Abort 2))
   \<and> (add_solution s a k solver_addr cid = Inl e \<longrightarrow>
        exec (\<lambda>s. add_solution s a k solver_addr cid) s = s)"
proof (intro conjI impI)
  assume h: "registries s a = Some reg \<and> problems reg k = Some p \<and> p_open p \<and> solver_addr = a \<and>
    length (p_solutions p) < 2 ^ 64 - 1"
  then have u: "unat (of_nat (length (p_solutions p)) :: u64) = length (p_solutions p)"
    by (intro unat_of_nat_u64) simp
  then have lt: "unat (of_nat (length (p_solutions p)) :: u64) < 2 ^ 64 - 1"
    using h by simp
  then have "add_u64 (of_nat (length (p_solutions p))) 1 = Inr (of_nat (length (p_solutions p)) + 1)"
    by (simp only: add_u64_one if_True)
  then show "add_solution s a k solver_addr cid =
        Inr (s\<lparr>registries := (registries s)(a \<mapsto> reg\<lparr>problems := (problems reg)(k \<mapsto>
               p\<lparr>p_solutions := p_solutions p @
                    [\<lparr>s_id = of_nat (length (p_solutions p)) + 1, s_solver = a, s_cid = cid,
                      s_votes = 0\<rparr>]\<rparr>)\<rparr>)\<rparr>)"
    using h by (simp add: add_solution_def borrow_global_def table_borrow_def vector_length_def
        write_problem_def)
  show "unat (of_nat (length (p_solutions p)) + 1 :: u64) = length (p_solutions p) + 1"
    using unat_plus_one [OF lt] u by simp
next
  assume "registries s a = None"
  then show "add_solution s a k solver_addr cid = Inl MissingResource"
    by (simp add: add_solution_def borrow_global_def)
next
  assume "registries s a = Some reg \<and> problems reg k = None"
  then show "add_solution s a k solver_addr cid = Inl TableKeyMissing"
    by (simp add: add_solution_def borrow_global_def table_borrow_def)
next
  assume "registries s a = Some reg \<and> problems reg k = Some p \<and> \<not> p_open p"
  then show "add_solution s a k solver_addr cid = Inl (Abort 1)"
    by (simp add: add_solution_def borrow_global_def table_borrow_def)
next
  assume "registries s a = Some reg \<and> problems reg k = Some p \<and> p_open p \<and> solver_addr \<noteq> a"
  then show "add_solution s a k solver_addr cid = Inl (Abort 2)"
    by (simp add: add_solution_def borrow_global_def table_borrow_def)
next
  assume "add_solution s a k solver_addr cid = Inl e"
  then show "exec (\<lambda>s. add_solution s a k solver_addr cid) s = s"
    by (simp add: exec_def)
qed

theorem add_solution_effect_witness:
  "registries self_solved_state 10 = Some self_solved_registry
   \<and> problems self_solved_registry 1 = Some self_solved_problem
   \<and> p_open self_solved_problem
   \<and> length (p_solutions self_solved_problem) < 2 ^ 64 - 1
   \<and> add_solution self_solved_state 10 1 10 Qm111 = Inr twice_solved_state
   \<and> p_solutions twice_solved_problem =
        p_solutions self_solved_problem @ [\<lparr>s_id = 2, s_solver = 10, s_cid = Qm111, s_votes = 0\<rparr>]
   \<and> registries fresh_state 11 = None
   \<and> add_solution fresh_state 11 1 11 Qm222 = Inl MissingResource
   \<and> problems self_solved_registry 2 = None
   \<and> add_solution self_solved_state 10 2 10 Qm222 = Inl TableKeyMissing
   \<and> registries released_state 10 = Some released_registry
   \<and> problems released_registry 1 = Some released_problem
   \<and> \<not> p_open released_problem
   \<and> add_solution released_state 10 1 10 Qm222 = Inl (Abort 1)
   \<and> (11 :: address) \<noteq> 10
   \<and> add_solution self_solved_state 10 1 11 Qm222 = Inl (Abort 2)
   \<and> exec (\<lambda>s. add_solution s 10 1 11 Qm222) self_solved_state = self_solved_state
   \<and> add_solution full_solutions_state 10 1 10 Qm222 = Inl ArithmeticError
   \<and> exec (\<lambda>s. add_solution s 10 1 10 Qm222) full_solutions_state = full_solutions_state"
proof -
  have y: "exec (\<lambda>s. add_solution s 10 1 10 Qm222) full_solutions_state = full_solutions_state"
    using add_solution_effect [where s = full_solutions_state and a = 10 and k = 1
        and solver_addr = 10 and cid = Qm222 and e = ArithmeticError] add_full_solutions
    by blast
  note t = add_solution_effect [where s = self_solved_state and a = 10
      and reg = self_solved_registry and p = self_solved_problem]
  have h: "registries self_solved_state 10 = Some self_solved_registry"
    "problems self_solved_registry 1 = Some self_solved_problem"
    "p_open self_solved_problem"
    "length (p_solutions self_solved_problem) < 2 ^ 64 - 1"
    "problems self_solved_registry 2 = None"
    by (simp_all add: example_defs new_problem_def)
  have r: "registries released_state 10 = Some released_registry"
    "problems released_registry 1 = Some released_problem"
    "\<not> p_open released_problem"
    by (simp_all add: example_defs new_problem_def)
  have f: "registries fresh_state 11 = None" by (simp add: fresh_state_def)
  have "add_solution self_solved_state 10 1 10 Qm111 =
      Inr (self_solved_state\<lparr>registries := (registries self_solved_state)(10 \<mapsto>
        self_solved_registry\<lparr>problems := (problems self_solved_registry)(1 \<mapsto>
           self_solved_problem\<lparr>p_solutions := p_solutions self_solved_problem @
                [\<lparr>s_id = of_nat (length (p_solutions self_solved_problem)) + 1, s_solver = 10,
                  s_cid = Qm111, s_votes = 0\<rparr>]\<rparr>)\<rparr>)\<rparr>)"
    using t [where k = 1 and solver_addr = 10 and cid = Qm111] h by blast
  then have q: "twice_solved_state =
      self_solved_state\<lparr>registries := (registries self_solved_state)(10 \<mapsto>
        self_solved_registry\<lparr>problems := (problems self_solved_registry)(1 \<mapsto>
           self_solved_problem\<lparr>p_solutions := p_solutions self_solved_problem @
                [\<lparr>s_id = of_nat (length (p_solutions self_solved_problem)) + 1, s_solver = 10,
                  s_cid = Qm111, s_votes = 0\<rparr>]\<rparr>)\<rparr>)\<rparr>"
    by (simp only: add_self_solved sum.inject)
  have "problems_of twice_solved_state 10 1 =
      Some (self_solved_problem\<lparr>p_solutions := p_solutions self_solved_problem @
                [\<lparr>s_id = of_nat (length (p_solutions self_solved_problem)) + 1, s_solver = 10,
                  s_cid = Qm111, s_votes = 0\<rparr>]\<rparr>)"
    by (subst q) (simp add: problems_of_def)
  then have "twice_solved_problem =
      self_solved_problem\<lparr>p_solutions := p_solutions self_solved_problem @
                [\<lparr>s_id = of_nat (length (p_solutions self_solved_problem)) + 1, s_solver = 10,
                  s_cid = Qm111, s_votes = 0\<rparr>]\<rparr>"
    by (simp only: problems_of_twice_solved option.inject)
  then have "p_solutions twice_solved_problem =
      p_solutions (self_solved_problem\<lparr>p_solutions := p_solutions self_solved_problem @
                [\<lparr>s_id = of_nat (length (p_solutions self_solved_problem)) + 1, s_solver = 10,
                  s_cid = Qm111, s_votes = 0\<rparr>]\<rparr>)"
    by (rule arg_cong)
  also have "\<dots> =
        p_solutions self_solved_problem @ [\<lparr>s_id = 2, s_solver = 10, s_cid = Qm111, s_votes = 0\<rparr>]"
    by (simp add: self_solved_problem_def)
  finally have e: "p_solutions twice_solved_problem =
        p_solutions self_solved_problem @ [\<lparr>s_id = 2, s_solver = 10, s_cid = Qm111, s_votes = 0\<rparr>]" .
  have m: "add_solution fresh_state 11 1 11 Qm222 = Inl MissingResource"
    using add_solution_effect [where s = fresh_state and a = 11] f by blast
  have k: "add_solution self_solved_state 10 2 10 Qm222 = Inl TableKeyMissing"
    using t [where k = 2] h by blast
  have c: "add_solution released_state 10 1 10 Qm222 = Inl (Abort 1)"
    using add_solution_effect [where s = released_state and a = 10 and k = 1
      and reg = released_registry and p = released_problem] r by blast
  have n: "(11 :: address) \<noteq> 10" by simp
  have o: "add_solution self_solved_state 10 1 11 Qm222 = Inl (Abort 2)"
    using t [where k = 1 and solver_addr = 11] h n by blast
  then have x: "exec (\<lambda>s. add_solution s 10 1 11 Qm222) self_solved_state = self_solved_state"
    using t [where k = 1 and solver_addr = 11 and cid = Qm222] by blast
  show ?thesis using h r f e m k c n o x y add_self_solved add_full_solutions by blast
qed

section \<open>\<open>vote_solution\<close>\<close>

text \<open>
  Claim C6 as stated fails: with \<open>2^64 - 1\<close> votes on solution 1 of problem 1, which
  exists and is open, \<open>vote_solution\<close> aborts on the checked increment of the votes.
\<close>

theorem vote_solution_overflows:
  "reachable max_votes_state
   \<and> problems_of max_votes_state 10 1 = Some max_votes_problem
   \<and> \<not> closed_at max_votes_state 10 1
   \<and> first_match (p_solutions max_votes_problem) 1 0
   \<and> vote_solution max_votes_state 10 1 1 = Inl ArithmeticError"
proof -
  have "first_match (p_solutions max_votes_problem) 1 0"
    by (simp add: first_match_def max_votes_problem_def)
  then show ?thesis
    using reachable_max_votes problems_of_max_votes open_max_votes vote_max_votes by simp
qed

lemma vote_solution_open:
  assumes "registries s a = Some reg" "problems reg k = Some p" "p_open p"
  shows "vote_solution s a k sid =
     (case vote_scan (p_solutions p) sid 0 of
        Inl e \<Rightarrow> Inl e
      | Inr sols \<Rightarrow> Inr (write_problem s a reg k (p\<lparr>p_solutions := sols\<rparr>)))"
  using assms by (simp add: vote_solution_def borrow_global_def table_borrow_def)

lemma vote_scan_at:
  assumes "first_match sols sid j"
  shows "vote_scan sols sid 0 =
     (if unat (s_votes (sols ! j)) < 2 ^ 64 - 1
      then Inr (sols[j := (sols ! j)\<lparr>s_votes := s_votes (sols ! j) + 1\<rparr>])
      else Inl ArithmeticError)"
  using assms vote_scan_first [of 0 j sols sid] by (simp add: first_match_def)

lemma vote_scan_missing:
  assumes "\<forall>x \<in> set sols. s_id x \<noteq> sid"
  shows "vote_scan sols sid 0 = Inl (Abort 4)"
proof (rule vote_scan_none)
  fix m assume "m < length sols"
  then have "sols ! m \<in> set sols" by simp
  with assms show "s_id (sols ! m) \<noteq> sid" by blast
qed

text \<open>
  Claim C6, amended. On a problem that exists in the caller's registry and is open:
  if no solution carries the id, \<open>vote_solution\<close> fails with code 4 and the state stays
  as it was; if \<open>j\<close> is the position of the first solution with the id and its votes are
  below \<open>2^64 - 1\<close>, the call succeeds and the new state differs from the old one only in
  the votes of that solution, which are one more; if its votes are \<open>2^64 - 1\<close>, the call
  aborts with an arithmetic error and the state stays as it was.
\<close>

theorem vote_solution_effect:
  "registries s a = Some reg \<and> problems reg k = Some p \<and> p_open p \<longrightarrow>
     ((\<forall>x \<in> set (p_solutions p). s_id x \<noteq> sid) \<longrightarrow>
        vote_solution s a k sid = Inl (Abort 4) \<and>
        exec (\<lambda>s. vote_solution s a k sid) s = s)
   \<and> (first_match (p_solutions p) sid j \<and> unat (s_votes (p_solutions p ! j)) < 2 ^ 64 - 1 \<longrightarrow>
        vote_solution s a k sid =
          Inr (s\<lparr>registries := (registries s)(a \<mapsto> reg\<lparr>problems := (problems reg)(k \<mapsto>
                 p\<lparr>p_solutions := (p_solutions p)
                      [j := (p_solutions p ! j)\<lparr>s_votes := s_votes (p_solutions p ! j) + 1\<rparr>]\<rparr>)\<rparr>)\<rparr>) \<and>
        unat (s_votes (p_solutions p ! j) + 1) = unat (s_votes (p_solutions p ! j)) + 1)
   \<and> (first_match (p_solutions p) sid j \<and> unat (s_votes (p_solutions p ! j)) = 2 ^ 64 - 1 \<longrightarrow>
        vote_solution s a k sid = Inl ArithmeticError \<and>
        exec (\<lambda>s. vote_solution s a k sid) s = s)"
proof (intro impI conjI)
  assume h: "registries s a = Some reg \<and> problems reg k = Some p \<and> p_open p"
  then have v: "vote_solution s a k sid =
     (case vote_scan (p_solutions p) sid 0 of
        Inl e \<Rightarrow> Inl e
      | Inr sols \<Rightarrow> Inr (write_problem s a reg k (p\<lparr>p_solutions := sols\<rparr>)))"
    using vote_solution_open by blast
  {
    assume "\<forall>x \<in> set (p_solutions p). s_id x \<noteq> sid"
    then have "vote_scan (p_solutions p) sid 0 = Inl (Abort 4)" by (rule vote_scan_missing)
    then show r: "vote_solution s a k sid = Inl (Abort 4)" by (simp add: v)
    then show "exec (\<lambda>s. vote_solution s a k sid) s = s" by (simp add: exec_def)
  }
  {
    assume f: "first_match (p_solutions p) sid j \<and> unat (s_votes (p_solutions p ! j)) < 2 ^ 64 - 1"
    then have "vote_scan (p_solutions p) sid 0 =
        Inr ((p_solutions p)[j := (p_solutions p ! j)\<lparr>s_votes := s_votes (p_solutions p ! j) + 1\<rparr>])"
      using vote_scan_at [of "p_solutions p" sid j] by simp
    then show "vote_solution s a k sid =
          Inr (s\<lparr>registries := (registries s)(a \<mapsto> reg\<lparr>problems := (problems reg)(k \<mapsto>
                 p\<lparr>p_solutions := (p_solutions p)
                      [j := (p_solutions p ! j)\<lparr>s_votes := s_votes (p_solutions p ! j) + 1\<rparr>]\<rparr>)\<rparr>)\<rparr>)"
      by (simp add: v write_problem_def)
    from f show "unat (s_votes (p_solutions p ! j) + 1) = unat (s_votes (p_solutions p ! j)) + 1"
      using unat_plus_one by blast
  }
  {
    assume f: "first_match (p_solutions p) sid j \<and> unat (s_votes (p_solutions p ! j)) = 2 ^ 64 - 1"
    then have "vote_scan (p_solutions p) sid 0 = Inl ArithmeticError"
      using vote_scan_at [of "p_solutions p" sid j] by simp
    then show r: "vote_solution s a k sid = Inl ArithmeticError" by (simp add: v)
    then show "exec (\<lambda>s. vote_solution s a k sid) s = s" by (simp add: exec_def)
  }
qed

lemma vote_twice_solved: "vote_solution twice_solved_state 10 1 2 = Inr voted_state"
  by (simp add: example_defs eval_defs fun_eq_iff)

theorem vote_solution_effect_witness:
  "registries twice_solved_state 10 = Some twice_solved_registry
   \<and> problems twice_solved_registry 1 = Some twice_solved_problem
   \<and> p_open twice_solved_problem
   \<and> first_match (p_solutions twice_solved_problem) 2 1
   \<and> unat (s_votes (p_solutions twice_solved_problem ! 1)) < 2 ^ 64 - 1
   \<and> vote_solution twice_solved_state 10 1 2 = Inr voted_state
   \<and> voted_state = twice_solved_state\<lparr>registries := (registries twice_solved_state)(10 \<mapsto>
        twice_solved_registry\<lparr>problems := (problems twice_solved_registry)(1 \<mapsto>
          twice_solved_problem\<lparr>p_solutions := (p_solutions twice_solved_problem)
            [1 := (p_solutions twice_solved_problem ! 1)
               \<lparr>s_votes := s_votes (p_solutions twice_solved_problem ! 1) + 1\<rparr>]\<rparr>)\<rparr>)\<rparr>
   \<and> 3 \<notin> set (map s_id (p_solutions twice_solved_problem))
   \<and> vote_solution twice_solved_state 10 1 3 = Inl (Abort 4)
   \<and> exec (\<lambda>s. vote_solution s 10 1 3) twice_solved_state = twice_solved_state
   \<and> registries max_votes_state 10 = Some max_votes_registry
   \<and> problems max_votes_registry 1 = Some max_votes_problem
   \<and> p_open max_votes_problem
   \<and> first_match (p_solutions max_votes_problem) 1 0
   \<and> unat (s_votes (p_solutions max_votes_problem ! 0)) = 2 ^ 64 - 1
   \<and> vote_solution max_votes_state 10 1 1 = Inl ArithmeticError
   \<and> exec (\<lambda>s. vote_solution s 10 1 1) max_votes_state = max_votes_state"
proof -
  have mh: "registries max_votes_state 10 = Some max_votes_registry
      \<and> problems max_votes_registry 1 = Some max_votes_problem
      \<and> p_open max_votes_problem"
    by (simp add: max_votes_state_eq max_votes_registry_def max_votes_problem_def
        new_problem_def)
  have mf: "first_match (p_solutions max_votes_problem) 1 0
      \<and> unat (s_votes (p_solutions max_votes_problem ! 0)) = 2 ^ 64 - 1"
    by (simp add: first_match_def max_votes_problem_def)
  have mv: "vote_solution max_votes_state 10 1 1 = Inl ArithmeticError
      \<and> exec (\<lambda>s. vote_solution s 10 1 1) max_votes_state = max_votes_state"
    using vote_solution_effect [where s = max_votes_state and a = 10 and k = 1
        and reg = max_votes_registry and p = max_votes_problem and sid = 1 and j = 0] mh mf
    by blast
  note t = vote_solution_effect [where s = twice_solved_state and a = 10 and k = 1
      and reg = twice_solved_registry and p = twice_solved_problem]
  have h: "registries twice_solved_state 10 = Some twice_solved_registry
      \<and> problems twice_solved_registry 1 = Some twice_solved_problem
      \<and> p_open twice_solved_problem"
    by (simp add: example_defs new_problem_def)
  have f: "first_match (p_solutions twice_solved_problem) 2 1
      \<and> unat (s_votes (p_solutions twice_solved_problem ! 1)) < 2 ^ 64 - 1"
    by (simp add: first_match_def twice_solved_problem_def)
  have n: "\<forall>x \<in> set (p_solutions twice_solved_problem). s_id x \<noteq> 3"
    by (simp add: twice_solved_problem_def)
  then have n': "3 \<notin> set (map s_id (p_solutions twice_solved_problem))" by auto
  have "vote_solution twice_solved_state 10 1 2 =
      Inr (twice_solved_state\<lparr>registries := (registries twice_solved_state)(10 \<mapsto>
        twice_solved_registry\<lparr>problems := (problems twice_solved_registry)(1 \<mapsto>
          twice_solved_problem\<lparr>p_solutions := (p_solutions twice_solved_problem)
            [1 := (p_solutions twice_solved_problem ! 1)
               \<lparr>s_votes := s_votes (p_solutions twice_solved_problem ! 1) + 1\<rparr>]\<rparr>)\<rparr>)\<rparr>)"
    using t [where sid = 2 and j = 1] h f by blast
  then have e: "voted_state = twice_solved_state\<lparr>registries := (registries twice_solved_state)(10 \<mapsto>
        twice_solved_registry\<lparr>problems := (problems twice_solved_registry)(1 \<mapsto>
          twice_solved_problem\<lparr>p_solutions := (p_solutions twice_solved_problem)
            [1 := (p_solutions twice_solved_problem ! 1)
               \<lparr>s_votes := s_votes (p_solutions twice_solved_problem ! 1) + 1\<rparr>]\<rparr>)\<rparr>)\<rparr>"
    by (simp only: vote_twice_solved sum.inject)
  have "vote_solution twice_solved_state 10 1 3 = Inl (Abort 4)
      \<and> exec (\<lambda>s. vote_solution s 10 1 3) twice_solved_state = twice_solved_state"
    using t [where sid = 3] h n by blast
  then show ?thesis using h f e n' vote_twice_solved mh mf mv by blast
qed

end
